theory Spec2Isabelle
  imports
    Complex_Main
    "HOL-Library.Word"
    "HOL-Library.Log_Nat"
    "HOL-Library.Multiset"
    "HOL-Library.AList"
begin

section \<open>Facebook Ads analytics pipeline (\<^verbatim>\<open>src/server.js\<close>)\<close>

text \<open>
  A shallow embedding of the pipeline of \<^verbatim>\<open>server.js\<close>: the account lister
  \<^verbatim>\<open>getAdAccounts\<close>, the fetcher and aggregator \<^verbatim>\<open>fetchFacebookAdData\<close>, the writer
  \<^verbatim>\<open>saveFunnelData\<close>, the orchestrator \<^verbatim>\<open>processFacebookData\<close> and the two endpoints.
  An \<^verbatim>\<open>async\<close> function is a function into \<open>exn + 'a\<close>: \<open>Inr\<close> is a fulfilled promise,
  \<open>Inl\<close> a rejected one. The remote API and the store are inputs of the model: each
  remote call is given its reply, each store write its outcome. Logging is left out.
\<close>

subsection \<open>JavaScript numbers\<close>

text \<open>
  A Number is an IEEE-754 binary64 value. The finite ones are carried as the rational
  they denote; \<open>-0\<close> is identified with \<open>0\<close> (the program starts every sum at \<open>+0\<close>,
  compares with \<open>> 0\<close> only, and never divides by a zero, so the sign of a zero is
  never observed).
\<close>

datatype jsnum = NaN | PInf | NInf | Fin rat

definition ilog2 :: "rat \<Rightarrow> int" where
  \<comment> \<open>for \<open>0 < q\<close>: the \<open>e\<close> with \<open>2 powi e \<le> q < 2 powi (e + 1)\<close>\<close>
  "ilog2 q = (case quotient_of q of (a, b) \<Rightarrow>
      (let e0 = bitlen a - bitlen b in if 2 powi e0 \<le> q then e0 else e0 - 1))"

definition round_half_even :: "rat \<Rightarrow> int" where
  "round_half_even x =
     (let f = \<lfloor>x\<rfloor>; d = x - of_int f
      in if d < 1 / 2 then f else if 1 / 2 < d then f + 1
         else if even f then f else f + 1)"

definition to_double :: "rat \<Rightarrow> jsnum" where
  \<comment> \<open>round to nearest, ties to even: 53 significant bits, least exponent \<open>-1074\<close>,
      overflow to an infinity once the rounded value reaches \<open>2 ^ 1024\<close>\<close>
  "to_double q =
     (if q = 0 then Fin 0
      else let a = \<bar>q\<bar>;
               u = max (ilog2 a - 52) (- 1074);
               r = of_int (round_half_even (a / 2 powi u)) * 2 powi u
           in if r \<noteq> 0 \<and> 1024 \<le> ilog2 r then (if 0 < q then PInf else NInf)
              else Fin (if 0 < q then r else - r))"

fun js_add :: "jsnum \<Rightarrow> jsnum \<Rightarrow> jsnum" where
  "js_add (Fin a) (Fin b) = to_double (a + b)"
| "js_add NaN _ = NaN"
| "js_add _ NaN = NaN"
| "js_add PInf NInf = NaN"
| "js_add NInf PInf = NaN"
| "js_add PInf _ = PInf"
| "js_add _ PInf = PInf"
| "js_add NInf _ = NInf"
| "js_add _ NInf = NInf"

fun js_sgn :: "jsnum \<Rightarrow> int" where
  "js_sgn (Fin a) = (if 0 < a then 1 else if a < 0 then - 1 else 0)"
| "js_sgn PInf = 1"
| "js_sgn NInf = - 1"
| "js_sgn NaN = 0"

definition js_inf :: "int \<Rightarrow> jsnum" where
  "js_inf s = (if 0 < s then PInf else if s < 0 then NInf else NaN)"

fun js_mul :: "jsnum \<Rightarrow> jsnum \<Rightarrow> jsnum" where
  "js_mul (Fin a) (Fin b) = to_double (a * b)"
| "js_mul NaN _ = NaN"
| "js_mul _ NaN = NaN"
| "js_mul x y = js_inf (js_sgn x * js_sgn y)"

fun js_div :: "jsnum \<Rightarrow> jsnum \<Rightarrow> jsnum" where
  "js_div (Fin a) (Fin b) = (if b = 0 then js_inf (js_sgn (Fin a)) else to_double (a / b))"
| "js_div NaN _ = NaN"
| "js_div _ NaN = NaN"
| "js_div (Fin a) _ = Fin 0"
| "js_div x (Fin b) = js_inf (js_sgn x * (if b < 0 then - 1 else 1))"
| "js_div _ _ = NaN"

fun js_gt :: "jsnum \<Rightarrow> jsnum \<Rightarrow> bool" where
  "js_gt (Fin a) (Fin b) = (b < a)"
| "js_gt NaN _ = False"
| "js_gt _ NaN = False"
| "js_gt PInf y = (y \<noteq> PInf)"
| "js_gt NInf _ = False"
| "js_gt (Fin a) NInf = True"
| "js_gt (Fin a) PInf = False"

subsection \<open>JavaScript strings\<close>

text \<open>A string is a sequence of 16-bit code units; \<open>js\<close> embeds a literal.\<close>

type_synonym jschar = "16 word"
type_synonym jsstring = "jschar list"

definition js :: "string \<Rightarrow> jsstring" where
  "js s = map (\<lambda>c. of_nat (of_char c)) s"

definition is_digit :: "jschar \<Rightarrow> bool" where
  "is_digit c = (48 \<le> c \<and> c \<le> 57)"

definition is_space :: "jschar \<Rightarrow> bool" where
  \<comment> \<open>WhiteSpace and LineTerminator: the class \<^verbatim>\<open>\s\<close>, and what \<^verbatim>\<open>parseInt\<close> and
      \<^verbatim>\<open>parseFloat\<close> skip at the start\<close>
  "is_space c = (c \<in> set [0x9, 0xA, 0xB, 0xC, 0xD, 0x20, 0xA0, 0x1680, 0x2028, 0x2029,
                           0x202F, 0x205F, 0x3000, 0xFEFF] \<or> (0x2000 \<le> c \<and> c \<le> 0x200A))"

definition digit_val :: "jschar \<Rightarrow> int" where
  "digit_val c = (if 48 \<le> c \<and> c \<le> 57 then uint c - 48
                  else if 97 \<le> c \<and> c \<le> 122 then uint c - 87
                  else if 65 \<le> c \<and> c \<le> 90 then uint c - 55 else 36)"

definition radix_digit :: "int \<Rightarrow> jschar \<Rightarrow> bool" where
  "radix_digit R c = (digit_val c < R)"

definition digits_value :: "int \<Rightarrow> jsstring \<Rightarrow> int" where
  "digits_value R ds = foldl (\<lambda>v c. v * R + digit_val c) 0 ds"

definition strip_sign :: "jsstring \<Rightarrow> rat \<times> jsstring" where
  "strip_sign s = (case s of [] \<Rightarrow> (1, [])
     | c # cs \<Rightarrow> if c = 45 then (- 1, cs) else if c = 43 then (1, cs) else (1, s))"

definition parseInt :: "jsstring \<Rightarrow> jsnum" where
  \<comment> \<open>\<^verbatim>\<open>parseInt(string)\<close> with no radix: leading white space is skipped, a sign and a
      \<^verbatim>\<open>0x\<close> prefix are read, then the longest run of digits; what follows is ignored.
      The digits are valued exactly and rounded once (the language lets an implementation
      drop decimal digits after the 20th)\<close>
  "parseInt str =
     (case strip_sign (dropWhile is_space str) of (sign, s1) \<Rightarrow>
        (let hex = (take 2 s1 = js ''0x'' \<or> take 2 s1 = js ''0X'');
             R = (if hex then 16 else 10);
             s2 = (if hex then drop 2 s1 else s1);
             Z = takeWhile (radix_digit R) s2
         in if Z = [] then NaN else to_double (sign * of_int (digits_value R Z))))"

definition exponent_part :: "jsstring \<Rightarrow> int" where
  \<comment> \<open>the ExponentPart at the start of the string, if there is one\<close>
  "exponent_part s = (case s of [] \<Rightarrow> 0
     | c # cs \<Rightarrow> if c = 101 \<or> c = 69
         then (case strip_sign cs of (sg, ds) \<Rightarrow>
                 (let ed = takeWhile is_digit ds
                  in if ed = [] then 0
                     else (if sg < 0 then - 1 else 1) * digits_value 10 ed))
         else 0)"

definition parseFloat :: "jsstring \<Rightarrow> jsnum" where
  \<comment> \<open>\<^verbatim>\<open>parseFloat(string)\<close>: the longest prefix, after white space, that is a
      StrDecimalLiteral\<close>
  "parseFloat str =
     (case strip_sign (dropWhile is_space str) of (sign, s1) \<Rightarrow>
        if take 8 s1 = js ''Infinity'' then (if 0 < sign then PInf else NInf)
        else
          (let ip = takeWhile is_digit s1;
               r1 = dropWhile is_digit s1;
               dot = (r1 \<noteq> [] \<and> hd r1 = 46);
               fp = (if dot then takeWhile is_digit (tl r1) else []);
               r2 = (if dot then dropWhile is_digit (tl r1) else r1)
           in if ip = [] \<and> fp = [] then NaN
              else to_double (sign *
                     (of_int (digits_value 10 ip)
                        + of_int (digits_value 10 fp) / 10 ^ length fp)
                     * 10 powi exponent_part r2)))"

subsection \<open>The pattern \<^verbatim>\<open>/Funnel\s*(\d+)/i\<close>\<close>

text \<open>
  A backtracking matcher in the style of the language definition: \<open>rmatch r c s\<close> lists,
  in the order in which backtracking tries them, the ways for \<open>r\<close> to match a prefix of
  \<open>s\<close>, each with the captures so far and the input left. A greedy star tries one more
  iteration first and rejects an iteration that consumes nothing.
\<close>

datatype regex = Atom "jschar \<Rightarrow> bool" | Seq regex regex | Star regex | Group nat regex

type_synonym captures = "nat \<Rightarrow> jsstring option"

function rmatch :: "regex \<Rightarrow> captures \<Rightarrow> jsstring \<Rightarrow> (captures \<times> jsstring) list" where
  "rmatch (Atom p) c s = (case s of [] \<Rightarrow> [] | x # xs \<Rightarrow> if p x then [(c, xs)] else [])"
| "rmatch (Seq r1 r2) c s = concat (map (\<lambda>(c', s'). rmatch r2 c' s') (rmatch r1 c s))"
| "rmatch (Star r) c s =
     concat (map (\<lambda>(c', s'). if length s' < length s then rmatch (Star r) c' s' else [])
                 (rmatch r c s)) @ [(c, s)]"
| "rmatch (Group n r) c s =
     map (\<lambda>(c', s'). (c'(n \<mapsto> take (length s - length s') s), s')) (rmatch r c s)"
  by pat_completeness auto
termination
  by (relation "measures [\<lambda>(r, c, s). size r, \<lambda>(r, c, s). length s]") auto

fun regex_search :: "regex \<Rightarrow> jsstring \<Rightarrow> captures option" where
  \<comment> \<open>the first match, trying every start position from the left\<close>
  "regex_search r s =
     (case rmatch r Map.empty s of
        (c, rest) # _ \<Rightarrow> Some c
      | [] \<Rightarrow> (case s of [] \<Rightarrow> None | _ # xs \<Rightarrow> regex_search r xs))"

definition canonicalize :: "jschar \<Rightarrow> jschar" where
  \<comment> \<open>the case folding of the \<^verbatim>\<open>i\<close> flag, as far as it matters against an ASCII
      pattern character: a code unit outside ASCII never folds to an ASCII one\<close>
  "canonicalize c = (if 97 \<le> c \<and> c \<le> 122 then c - 32 else c)"

definition ci_atom :: "jschar \<Rightarrow> regex" where
  "ci_atom p = Atom (\<lambda>c. canonicalize c = canonicalize p)"

definition digits_group :: regex where
  "digits_group = Group 1 (Seq (Atom is_digit) (Star (Atom is_digit)))"

definition funnel_regex :: regex where
  "funnel_regex =
     foldr Seq (map ci_atom (js ''Funnel'')) (Seq (Star (Atom is_space)) digits_group)"

definition classify :: "jsstring \<Rightarrow> jsstring" where
  \<comment> \<open>\<^verbatim>\<open>funnelMatch ? funnelMatch[1] : 'unknown'\<close>; a group that took no part in the
      match would read as \<^verbatim>\<open>undefined\<close>\<close>
  "classify campaignName =
     (case regex_search funnel_regex campaignName of
        None \<Rightarrow> js ''unknown''
      | Some c \<Rightarrow> (case c 1 of Some d \<Rightarrow> d | None \<Rightarrow> js ''undefined''))"

subsection \<open>Data of the remote API\<close>

text \<open>
  A field of a fetched record is absent, \<^verbatim>\<open>null\<close> or a string (the reporting API sends
  identifiers, names and metrics as JSON strings). A remote call fails, answers
  without a \<^verbatim>\<open>data\<close> array, or answers with one.
\<close>

datatype field = Absent | Null | Str jsstring

datatype exn = AxiosError | TypeError | StoreError

datatype 'a reply = Failed | NoData | Data "'a list"

record account =
  a_id :: jsstring
  a_name :: field
  account_status :: int

record campaign =
  c_id :: field
  c_name :: field

record insight =
  i_campaign_id :: field
  i_campaign_name :: field
  i_spend :: field
  i_impressions :: field
  i_reach :: field
  i_clicks :: field

record detail =
  d_campaign_id :: field
  d_campaign_name :: jsstring
  d_spend :: jsnum
  d_impressions :: jsnum
  d_clicks :: jsnum

record funnel =
  funnel_id :: jsstring
  funnel_name :: jsstring
  start_date :: jsstring
  end_date :: jsstring
  amount_spent :: jsnum
  impressions :: jsnum
  reach :: jsnum
  ads_link_clicks :: jsnum
  frequency :: jsnum
  campaigns :: "detail list option"
  link_ctr :: "jsnum option"
  is_current_week :: "bool option"

definition truthy :: "field \<Rightarrow> jsstring option" where
  \<comment> \<open>a field is truthy when it is a non-empty string\<close>
  "truthy f = (case f of Str s \<Rightarrow> if s = [] then None else Some s | _ \<Rightarrow> None)"

definition or_zero :: "field \<Rightarrow> jsstring" where
  \<comment> \<open>\<^verbatim>\<open>x || 0\<close> as the parsers read it: they convert their argument to a string first,
      and the number \<^verbatim>\<open>0\<close> converts to \<^verbatim>\<open>"0"\<close>\<close>
  "or_zero f = (case truthy f of Some s \<Rightarrow> s | None \<Rightarrow> js ''0'')"

definition key_of :: "field \<Rightarrow> jsstring" where
  \<comment> \<open>a value used as a property key\<close>
  "key_of f = (case f of Absent \<Rightarrow> js ''undefined'' | Null \<Rightarrow> js ''null'' | Str s \<Rightarrow> s)"

subsection \<open>The object \<^verbatim>\<open>campaignMap\<close>\<close>

text \<open>
  \<^verbatim>\<open>campaignMap\<close> is a plain object, so a key that it does not own is looked up in
  \<^verbatim>\<open>Object.prototype\<close>, and an assignment to \<^verbatim>\<open>__proto__\<close> goes to the inherited setter
  (which takes \<^verbatim>\<open>null\<close>, and ignores a string or \<^verbatim>\<open>undefined\<close>).
\<close>

datatype property = Own field | Inherited

record campaign_map =
  own :: "(jsstring \<times> field) list"
  has_proto :: bool

definition object_prototype_keys :: "jsstring list" where
  "object_prototype_keys = map js
     [''constructor'', ''__defineGetter__'', ''__defineSetter__'', ''hasOwnProperty'',
      ''__lookupGetter__'', ''__lookupSetter__'', ''isPrototypeOf'',
      ''propertyIsEnumerable'', ''toString'', ''valueOf'', ''__proto__'',
      ''toLocaleString'']"

definition set_prop :: "campaign_map \<Rightarrow> campaign \<Rightarrow> campaign_map" where
  \<comment> \<open>\<^verbatim>\<open>campaignMap[campaign.id] = campaign.name\<close>\<close>
  "set_prop m c =
     (let k = key_of (c_id c)
      in if k = js ''__proto__'' \<and> has_proto m
         then (if c_name c = Null then m\<lparr>has_proto := False\<rparr> else m)
         else m\<lparr>own := AList.update k (c_name c) (own m)\<rparr>)"

definition get_prop :: "campaign_map \<Rightarrow> jsstring \<Rightarrow> property" where
  "get_prop m k =
     (case map_of (own m) k of
        Some v \<Rightarrow> Own v
      | None \<Rightarrow> if has_proto m \<and> k \<in> set object_prototype_keys then Inherited
                else Own Absent)"

definition build_campaign_map :: "campaign list \<Rightarrow> campaign_map" where
  "build_campaign_map cs = foldl set_prop \<lparr>own = [], has_proto = True\<rparr> cs"

definition resolve_name :: "campaign_map \<Rightarrow> insight \<Rightarrow> exn + jsstring" where
  \<comment> \<open>\<^verbatim>\<open>insight.campaign_name || campaignMap[insight.campaign_id] || 'Unknown Campaign'\<close>;
      an inherited member is truthy and has no \<^verbatim>\<open>match\<close>, so the call on it throws\<close>
  "resolve_name m i =
     (case truthy (i_campaign_name i) of
        Some s \<Rightarrow> Inr s
      | None \<Rightarrow>
          (case get_prop m (key_of (i_campaign_id i)) of
             Inherited \<Rightarrow> Inl TypeError
           | Own v \<Rightarrow> (case truthy v of Some s \<Rightarrow> Inr s
                       | None \<Rightarrow> Inr (js ''Unknown Campaign''))))"

subsection \<open>The aggregator\<close>

text \<open>
  \<^verbatim>\<open>funnelData\<close> is an object keyed by funnel id, kept as an association list in
  insertion order. A funnel id is a run of digits or \<^verbatim>\<open>unknown\<close>, never a member of
  \<^verbatim>\<open>Object.prototype\<close> (lemma \<open>classify_not_inherited\<close>), so only own properties are
  found.
\<close>

type_synonym window = "jsstring \<times> jsstring"

definition new_funnel :: "window \<Rightarrow> jsstring \<Rightarrow> funnel" where
  "new_funnel w funnelId =
     \<lparr>funnel_id = funnelId, funnel_name = js ''Funnel #'' @ funnelId,
      start_date = fst w, end_date = snd w,
      amount_spent = Fin 0, impressions = Fin 0, reach = Fin 0, ads_link_clicks = Fin 0,
      frequency = Fin 0, campaigns = Some [], link_ctr = None, is_current_week = None\<rparr>"

definition add_insight :: "jsstring \<Rightarrow> insight \<Rightarrow> funnel \<Rightarrow> funnel" where
  "add_insight campaignName i f =
     f\<lparr>amount_spent := js_add (amount_spent f) (parseFloat (or_zero (i_spend i))),
       impressions := js_add (impressions f) (parseInt (or_zero (i_impressions i))),
       reach := js_add (reach f) (parseInt (or_zero (i_reach i))),
       ads_link_clicks := js_add (ads_link_clicks f) (parseInt (or_zero (i_clicks i))),
       campaigns := map_option (\<lambda>cs. cs @
          [\<lparr>d_campaign_id = i_campaign_id i, d_campaign_name = campaignName,
            d_spend = parseFloat (or_zero (i_spend i)),
            d_impressions = parseInt (or_zero (i_impressions i)),
            d_clicks = parseInt (or_zero (i_clicks i))\<rparr>]) (campaigns f)\<rparr>"

definition fold_insight ::
  "window \<Rightarrow> campaign_map \<Rightarrow> (jsstring \<times> funnel) list \<Rightarrow> insight
     \<Rightarrow> exn + (jsstring \<times> funnel) list" where
  \<comment> \<open>one turn of the loop over \<^verbatim>\<open>campaignData\<close>\<close>
  "fold_insight w m funnelData i =
     (case resolve_name m i of
        Inl e \<Rightarrow> Inl e
      | Inr campaignName \<Rightarrow>
          (let funnelId = classify campaignName;
               fd = (if map_of funnelData funnelId = None
                     then funnelData @ [(funnelId, new_funnel w funnelId)]
                     else funnelData)
           in Inr (AList.map_entry funnelId (add_insight campaignName i) fd)))"

fun aggregate ::
  "window \<Rightarrow> campaign_map \<Rightarrow> insight list \<Rightarrow> (jsstring \<times> funnel) list
     \<Rightarrow> exn + (jsstring \<times> funnel) list" where
  "aggregate w m [] funnelData = Inr funnelData"
| "aggregate w m (i # rest) funnelData =
     (case fold_insight w m funnelData i of
        Inl e \<Rightarrow> Inl e
      | Inr fd \<Rightarrow> aggregate w m rest fd)"

definition finalize :: "funnel \<Rightarrow> funnel" where
  \<comment> \<open>one turn of the loop that calculates the aggregate metrics\<close>
  "finalize funnel =
     (let f1 = (if js_gt (reach funnel) (Fin 0)
                then funnel\<lparr>frequency := js_div (impressions funnel) (reach funnel)\<rparr>
                else funnel);
          f2 = (if js_gt (impressions f1) (Fin 0)
                then f1\<lparr>link_ctr :=
                        Some (js_mul (js_div (ads_link_clicks f1) (impressions f1)) (Fin 100))\<rparr>
                else f1)
      in f2\<lparr>campaigns := None\<rparr>)"

definition is_array_index :: "jsstring \<Rightarrow> bool" where
  \<comment> \<open>a key that is the canonical decimal form of an integer below \<open>2 ^ 32 - 1\<close>\<close>
  "is_array_index k =
     (k \<noteq> [] \<and> list_all is_digit k \<and> (k = js ''0'' \<or> hd k \<noteq> 48)
      \<and> digits_value 10 k < 4294967295)"

definition object_values :: "(jsstring \<times> 'a) list \<Rightarrow> 'a list" where
  \<comment> \<open>own properties in their order: array indices ascending, then the other keys in
      insertion order (the order of \<^verbatim>\<open>for ... in\<close> and of \<^verbatim>\<open>Object.values\<close>)\<close>
  "object_values ps =
     map snd (sort_key (\<lambda>p. digits_value 10 (fst p)) (filter (\<lambda>p. is_array_index (fst p)) ps)
              @ filter (\<lambda>p. \<not> is_array_index (fst p)) ps)"

definition fetchFacebookAdData_body ::
  "window \<Rightarrow> campaign reply \<Rightarrow> insight reply \<Rightarrow> exn + funnel list" where
  \<comment> \<open>the \<^verbatim>\<open>try\<close> block: the two requests, the fold and the derived metrics\<close>
  "fetchFacebookAdData_body w campaignsResponse insightsResponse =
     (case campaignsResponse of
        Failed \<Rightarrow> Inl AxiosError
      | NoData \<Rightarrow> Inl TypeError
      | Data cs \<Rightarrow>
          (case insightsResponse of
             Failed \<Rightarrow> Inl AxiosError
           | NoData \<Rightarrow> Inl TypeError
           | Data campaignData \<Rightarrow>
               (case aggregate w (build_campaign_map cs) campaignData [] of
                  Inl e \<Rightarrow> Inl e
                | Inr funnelData \<Rightarrow> Inr (map finalize (object_values funnelData)))))"

definition fetchFacebookAdData ::
  "window \<Rightarrow> campaign reply \<Rightarrow> insight reply \<Rightarrow> exn + funnel list" where
  \<comment> \<open>the \<^verbatim>\<open>catch\<close> block returns the empty array\<close>
  "fetchFacebookAdData w campaignsResponse insightsResponse =
     (case fetchFacebookAdData_body w campaignsResponse insightsResponse of
        Inl e \<Rightarrow> Inr []
      | Inr funnels \<Rightarrow> Inr funnels)"

subsection \<open>The store and the writer\<close>

text \<open>
  The store is the table \<^verbatim>\<open>funnel_analytics\<close> together with the list of the rows that
  were sent to it. The store decides the outcome of a write: it takes the row, reports
  an error (which the writer logs), or the client throws.
\<close>

record store =
  rows :: "funnel list"
  requests :: "funnel list"

datatype outcome = Stored | Rejected | Thrown

definition funnel_key :: "funnel \<Rightarrow> jsstring \<times> jsstring \<times> jsstring" where
  \<comment> \<open>\<^verbatim>\<open>onConflict: 'start_date,end_date,funnel_id'\<close>\<close>
  "funnel_key f = (start_date f, end_date f, funnel_id f)"

text \<open>
  Modelled from the spec: the upsert of the persistence backend, which is not part of
  the repository. The spec has it as a write that inserts a new row or replaces an
  existing row sharing the same uniqueness key, all fields overwritten.
\<close>

fun upsert_row :: "funnel \<Rightarrow> funnel list \<Rightarrow> funnel list" where
  "upsert_row r [] = [r]"
| "upsert_row r (x # xs) =
     (if funnel_key x = funnel_key r then r # xs else x # upsert_row r xs)"

fun save_loop :: "(funnel \<Rightarrow> outcome) \<Rightarrow> funnel list \<Rightarrow> store \<Rightarrow> (exn + unit) \<times> store" where
  \<comment> \<open>the loop of \<^verbatim>\<open>saveFunnelData\<close>: stamp the row, send it, go on after a reported error\<close>
  "save_loop backend [] st = (Inr (), st)"
| "save_loop backend (funnelData # rest) st =
     (let row = funnelData\<lparr>is_current_week := Some True\<rparr>;
          st1 = st\<lparr>requests := requests st @ [row]\<rparr>
      in case backend row of
           Thrown \<Rightarrow> (Inl StoreError, st1)
         | Rejected \<Rightarrow> save_loop backend rest st1
         | Stored \<Rightarrow> save_loop backend rest (st1\<lparr>rows := upsert_row row (rows st1)\<rparr>))"

definition saveFunnelData ::
  "(funnel \<Rightarrow> outcome) \<Rightarrow> funnel list \<Rightarrow> store \<Rightarrow> (exn + unit) \<times> store" where
  "saveFunnelData backend funnelDataArray st =
     (if funnelDataArray = [] then (Inr (), st)
      else case save_loop backend funnelDataArray st of
             (Inl e, st') \<Rightarrow> (Inr (), st')
           | (Inr u, st') \<Rightarrow> (Inr (), st'))"

subsection \<open>The account lister and the orchestrator\<close>

record remote =
  adaccounts :: "account reply"
  campaigns_of :: "jsstring \<Rightarrow> campaign reply"
  insights_of :: "jsstring \<Rightarrow> insight reply"
  window_of :: "jsstring \<Rightarrow> window"

definition getAdAccounts_body :: "account reply \<Rightarrow> exn + account list" where
  "getAdAccounts_body response =
     (case response of Failed \<Rightarrow> Inl AxiosError | NoData \<Rightarrow> Inr [] | Data accounts \<Rightarrow> Inr accounts)"

definition getAdAccounts :: "account reply \<Rightarrow> exn + account list" where
  \<comment> \<open>the \<^verbatim>\<open>catch\<close> block returns the empty array\<close>
  "getAdAccounts response =
     (case getAdAccounts_body response of Inl e \<Rightarrow> Inr [] | Inr accounts \<Rightarrow> Inr accounts)"

fun remove_first :: "jsstring \<Rightarrow> jsstring \<Rightarrow> jsstring" where
  \<comment> \<open>\<^verbatim>\<open>s.replace(pat, '')\<close> for a non-empty string \<open>pat\<close>: the first occurrence goes\<close>
  "remove_first pat [] = []"
| "remove_first pat (c # cs) =
     (if take (length pat) (c # cs) = pat then drop (length pat) (c # cs)
      else c # remove_first pat cs)"

fun process_accounts ::
  "remote \<Rightarrow> (funnel \<Rightarrow> outcome) \<Rightarrow> account list \<Rightarrow> store \<Rightarrow> (exn + unit) \<times> store" where
  \<comment> \<open>the loop over \<^verbatim>\<open>adAccounts\<close>\<close>
  "process_accounts env backend [] st = (Inr (), st)"
| "process_accounts env backend (account # rest) st =
     (if account_status account \<noteq> 1 then process_accounts env backend rest st
      else
        (let accountId = remove_first (js ''act_'') (a_id account);
             adAccountId = js ''act_'' @ accountId
         in case fetchFacebookAdData (window_of env adAccountId)
                   (campaigns_of env adAccountId) (insights_of env adAccountId) of
              Inl e \<Rightarrow> (Inl e, st)
            | Inr funnelData \<Rightarrow>
                (case saveFunnelData backend funnelData st of
                   (Inl e, st') \<Rightarrow> (Inl e, st')
                 | (Inr u, st') \<Rightarrow> process_accounts env backend rest st')))"

definition account_funnels :: "remote \<Rightarrow> account \<Rightarrow> funnel list" where
  \<comment> \<open>what the fetch of an account hands to the writer\<close>
  "account_funnels env account =
     (let adAccountId = js ''act_'' @ remove_first (js ''act_'') (a_id account)
      in case fetchFacebookAdData (window_of env adAccountId)
                (campaigns_of env adAccountId) (insights_of env adAccountId) of
           Inl e \<Rightarrow> [] | Inr funnelData \<Rightarrow> funnelData)"

definition processFacebookData_body ::
  "remote \<Rightarrow> (funnel \<Rightarrow> outcome) \<Rightarrow> store \<Rightarrow> (exn + unit) \<times> store" where
  "processFacebookData_body env backend st =
     (case getAdAccounts (adaccounts env) of
        Inl e \<Rightarrow> (Inl e, st)
      | Inr adAccounts \<Rightarrow>
          if adAccounts = [] then (Inr (), st)
          else process_accounts env backend adAccounts st)"

definition processFacebookData ::
  "remote \<Rightarrow> (funnel \<Rightarrow> outcome) \<Rightarrow> store \<Rightarrow> (exn + unit) \<times> store" where
  \<comment> \<open>the \<^verbatim>\<open>catch\<close> block logs and returns\<close>
  "processFacebookData env backend st =
     (case processFacebookData_body env backend st of
        (Inl e, st') \<Rightarrow> (Inr (), st')
      | (Inr u, st') \<Rightarrow> (Inr (), st'))"

subsection \<open>The endpoints\<close>

text \<open>
  A response is the status and the JSON body; \<open>error\<close> holds the exception whose
  message the body carries.
\<close>

record response =
  status :: nat
  success :: bool
  message :: "string option"
  error :: "exn option"
  adAccounts :: "account list option"

definition sync_facebook_data ::
  "remote \<Rightarrow> (funnel \<Rightarrow> outcome) \<Rightarrow> store \<Rightarrow> response \<times> store" where
  \<comment> \<open>\<^verbatim>\<open>POST /sync-facebook-data\<close>\<close>
  "sync_facebook_data env backend st =
     (case processFacebookData env backend st of
        (Inr u, st') \<Rightarrow>
          (\<lparr>status = 200, success = True, message = Some ''Facebook data sync completed'',
            error = None, adAccounts = None\<rparr>, st')
      | (Inl e, st') \<Rightarrow>
          (\<lparr>status = 500, success = False, message = None,
            error = Some e, adAccounts = None\<rparr>, st'))"

definition test_facebook_connection :: "remote \<Rightarrow> response" where
  \<comment> \<open>\<^verbatim>\<open>GET /test-facebook-connection\<close>\<close>
  "test_facebook_connection env =
     (case getAdAccounts (adaccounts env) of
        Inr accounts \<Rightarrow>
          \<lparr>status = 200, success = True,
           message = Some ''Successfully connected to Facebook API'',
           error = None, adAccounts = Some accounts\<rparr>
      | Inl e \<Rightarrow>
          \<lparr>status = 500, success = False, message = None,
           error = Some e, adAccounts = None\<rparr>)"

subsection \<open>The classification rule in the words of the specification\<close>

text \<open>
  An occurrence of the rule in a name: the token \<^verbatim>\<open>Funnel\<close> in any letter case, then
  white space (possibly none), then one or more digits.
\<close>

definition funnel_token :: "jsstring \<Rightarrow> bool" where
  "funnel_token t = (map canonicalize t = js ''FUNNEL'')"

definition funnel_occurrence ::
  "jsstring \<Rightarrow> jsstring \<Rightarrow> jsstring \<Rightarrow> jsstring \<Rightarrow> jsstring \<Rightarrow> jsstring \<Rightarrow> bool" where
  "funnel_occurrence name pre tok ws ds post =
     (name = pre @ tok @ ws @ ds @ post \<and> funnel_token tok \<and> list_all is_space ws
      \<and> ds \<noteq> [] \<and> list_all is_digit ds)"

text \<open>The same rule read off directly at one position, and searched from the left.\<close>

definition match_here :: "jsstring \<Rightarrow> jsstring option" where
  "match_here s =
     (if map canonicalize (take 6 s) = js ''FUNNEL''
      then (let t = dropWhile is_space (drop 6 s)
            in if t \<noteq> [] \<and> is_digit (hd t) then Some (takeWhile is_digit t) else None)
      else None)"

fun find_funnel :: "jsstring \<Rightarrow> jsstring option" where
  "find_funnel s =
     (case match_here s of
        Some d \<Rightarrow> Some d
      | None \<Rightarrow> (case s of [] \<Rightarrow> None | _ # xs \<Rightarrow> find_funnel xs))"

subsection \<open>The records of a funnel and their exact totals\<close>

text \<open>
  The funnel that a record is folded into, the records of one funnel in input order, and
  the accumulator that folding them from a new one and deriving the metrics gives.
\<close>

definition funnel_of :: "campaign_map \<Rightarrow> insight \<Rightarrow> jsstring option" where
  "funnel_of m i = (case resolve_name m i of Inl e \<Rightarrow> None | Inr n \<Rightarrow> Some (classify n))"

definition records_of :: "campaign_map \<Rightarrow> jsstring \<Rightarrow> insight list \<Rightarrow> insight list" where
  "records_of m k ins = filter (\<lambda>i. funnel_of m i = Some k) ins"

definition name_of :: "campaign_map \<Rightarrow> insight \<Rightarrow> jsstring" where
  "name_of m i = (case resolve_name m i of Inl e \<Rightarrow> [] | Inr n \<Rightarrow> n)"

definition fold_record :: "campaign_map \<Rightarrow> funnel \<Rightarrow> insight \<Rightarrow> funnel" where
  "fold_record m f i = add_insight (name_of m i) i f"

definition start_of :: "window \<Rightarrow> (jsstring \<times> funnel) list \<Rightarrow> jsstring \<Rightarrow> funnel" where
  "start_of w fd k = (case map_of fd k of Some f \<Rightarrow> f | None \<Rightarrow> new_funnel w k)"

definition accumulated :: "window \<Rightarrow> campaign_map \<Rightarrow> jsstring \<Rightarrow> insight list \<Rightarrow> funnel" where
  "accumulated w m k ins =
     finalize (foldl (fold_record m) (new_funnel w k) (records_of m k ins))"

text \<open>
  The exact reading of a field: absent, \<^verbatim>\<open>null\<close> and the empty string count as zero, a
  string of decimal digits as the number it writes. The records of a funnel are exact in
  a field when each of them has such a value there and the total is at most \<open>2 ^ 53\<close>,
  so that every partial sum is a Number.
\<close>

definition count_field :: "field \<Rightarrow> bool" where
  "count_field f = (case truthy f of None \<Rightarrow> True | Some s \<Rightarrow> list_all is_digit s)"

definition count_value :: "field \<Rightarrow> int" where
  "count_value f = (case truthy f of None \<Rightarrow> 0 | Some s \<Rightarrow> digits_value 10 s)"

definition field_total :: "(insight \<Rightarrow> field) \<Rightarrow> insight list \<Rightarrow> int" where
  "field_total fld grp = sum_list (map (\<lambda>i. count_value (fld i)) grp)"

definition exact_records :: "(insight \<Rightarrow> field) \<Rightarrow> insight list \<Rightarrow> bool" where
  "exact_records fld grp =
     (list_all (\<lambda>i. count_field (fld i)) grp \<and> field_total fld grp \<le> 2 ^ 53)"

subsection \<open>Example inputs\<close>

text \<open>The reporting window and the records that the examples below run on.\<close>

definition example_window :: window where
  "example_window = (js ''2024-01-01'', js ''2024-01-08'')"

definition example_insight ::
  "string \<Rightarrow> string \<Rightarrow> string \<Rightarrow> string \<Rightarrow> string \<Rightarrow> insight" where
  "example_insight campaignName spnd imps rch clks =
     \<lparr>i_campaign_id = Absent, i_campaign_name = Str (js campaignName),
      i_spend = Str (js spnd), i_impressions = Str (js imps),
      i_reach = Str (js rch), i_clicks = Str (js clks)\<rparr>"

definition example_funnel :: "string \<Rightarrow> rat \<Rightarrow> rat \<Rightarrow> rat \<Rightarrow> rat \<Rightarrow> funnel" where
  \<comment> \<open>an accumulator with the given totals, before the derived metrics\<close>
  "example_funnel funnelId spent imps rch clks =
     (new_funnel example_window (js funnelId))
       \<lparr>amount_spent := Fin spent, impressions := Fin imps, reach := Fin rch,
        ads_link_clicks := Fin clks\<rparr>"

definition example_remote :: "campaign reply \<Rightarrow> insight reply \<Rightarrow> remote" where
  "example_remote campaignsResponse insightsResponse =
     \<lparr>adaccounts = NoData,
      campaigns_of = (\<lambda>a. if a = js ''act_1'' then campaignsResponse else Data []),
      insights_of = (\<lambda>a. if a = js ''act_1'' then insightsResponse else Data []),
      window_of = (\<lambda>a. example_window)\<rparr>"

definition example_account :: "string \<Rightarrow> account" where
  "example_account accountId = \<lparr>a_id = js accountId, a_name = Absent, account_status = 1\<rparr>"

text \<open>A remote whose first account fails and whose second and third have data.\<close>

definition failing_remote :: remote where
  "failing_remote =
     \<lparr>adaccounts = NoData,
      campaigns_of = (\<lambda>a. if a = js ''act_1'' then Failed else Data []),
      insights_of = (\<lambda>a.
         if a = js ''act_2'' then Data [example_insight ''Funnel 1'' ''5'' ''10'' ''4'' ''1'']
         else if a = js ''act_3'' then Data [example_insight ''Funnel 2'' ''6'' ''12'' ''4'' ''3'']
         else Data []),
      window_of = (\<lambda>a. example_window)\<rparr>"

definition empty_store :: store where
  "empty_store = \<lparr>rows = [], requests = []\<rparr>"

section \<open>Properties\<close>

subsection \<open>No function of the pipeline rejects\<close>

lemma getAdAccounts_Inr: "\<exists>accounts. getAdAccounts response = Inr accounts"
  by (cases response) (simp_all add: getAdAccounts_def getAdAccounts_body_def)

lemma fetchFacebookAdData_Inr: "\<exists>fs. fetchFacebookAdData w cr ir = Inr fs"
  by (cases "fetchFacebookAdData_body w cr ir") (simp_all add: fetchFacebookAdData_def)

lemma saveFunnelData_Inr: "\<exists>st'. saveFunnelData backend fs st = (Inr (), st')"
  by (cases "save_loop backend fs st"; cases "fst (save_loop backend fs st)")
     (auto simp: saveFunnelData_def)

lemma saveFunnelData_Nil: "saveFunnelData backend [] st = (Inr (), st)"
  by (simp add: saveFunnelData_def)

lemma processFacebookData_Inr: "\<exists>st'. processFacebookData env backend st = (Inr (), st')"
  by (cases "processFacebookData_body env backend st";
      cases "fst (processFacebookData_body env backend st)")
     (auto simp: processFacebookData_def)

lemma process_accounts_empty_fetch:
  assumes "account_status account = 1"
    and "fetchFacebookAdData
           (window_of env (js ''act_'' @ remove_first (js ''act_'') (a_id account)))
           (campaigns_of env (js ''act_'' @ remove_first (js ''act_'') (a_id account)))
           (insights_of env (js ''act_'' @ remove_first (js ''act_'') (a_id account))) = Inr []"
  shows "process_accounts env backend (account # rest) st = process_accounts env backend rest st"
  using assms by (simp add: saveFunnelData_Nil Let_def)

text \<open>
  Claim C10. The account listing is total: whatever the remote call does, it returns a
  list, and the empty one when the call fails. So the connectivity check never takes its
  error branch: it answers 200 with \<open>success\<close> true, also when the remote API is
  unreachable.
\<close>

theorem account_listing_total:
  "(\<exists>accounts. getAdAccounts response = Inr accounts)
   \<and> (\<forall>e. getAdAccounts_body response = Inl e \<longrightarrow> getAdAccounts response = Inr [])
   \<and> getAdAccounts Failed = Inr []
   \<and> status (test_facebook_connection env) = 200
   \<and> success (test_facebook_connection env)
   \<and> error (test_facebook_connection env) = None"
proof -
  obtain accounts where a: "getAdAccounts (adaccounts env) = Inr accounts"
    using getAdAccounts_Inr by blast
  have "getAdAccounts Failed = Inr []"
    by (simp add: getAdAccounts_def getAdAccounts_body_def)
  moreover have "\<forall>e. getAdAccounts_body response = Inl e \<longrightarrow> getAdAccounts response = Inr []"
    by (simp add: getAdAccounts_def)
  ultimately show ?thesis
    using getAdAccounts_Inr [of response] a by (simp add: test_facebook_connection_def)
qed

theorem account_listing_total_witness:
  "getAdAccounts_body Failed = Inl AxiosError \<and> getAdAccounts Failed = Inr []
   \<and> status (test_facebook_connection
        \<lparr>adaccounts = Failed, campaigns_of = (\<lambda>a. Failed), insights_of = (\<lambda>a. Failed),
         window_of = (\<lambda>a. ([], []))\<rparr>) = 200"
proof -
  have h: "getAdAccounts_body Failed = Inl AxiosError"
    by (simp add: getAdAccounts_body_def)
  show ?thesis
    using h account_listing_total [of Failed
        "\<lparr>adaccounts = Failed, campaigns_of = (\<lambda>a. Failed), insights_of = (\<lambda>a. Failed),
          window_of = (\<lambda>a. ([], []))\<rparr>"]
    by blast
qed

text \<open>
  Claim C6. The manual trigger answers 200 with the success payload for every cycle:
  \<^verbatim>\<open>processFacebookData\<close> catches every failure itself, so the handler's 500 branch is
  never taken. In particular a cycle whose account listing fails, and which therefore
  does no work, is answered with 200 and \<open>success\<close> true.
\<close>

theorem sync_endpoint_never_500:
  "fst (sync_facebook_data env backend st) =
     \<lparr>status = 200, success = True, message = Some ''Facebook data sync completed'',
      error = None, adAccounts = None\<rparr>
   \<and> sync_facebook_data (env\<lparr>adaccounts := Failed\<rparr>) backend st =
     (\<lparr>status = 200, success = True, message = Some ''Facebook data sync completed'',
       error = None, adAccounts = None\<rparr>, st)"
proof -
  obtain st' where "processFacebookData env backend st = (Inr (), st')"
    using processFacebookData_Inr by blast
  then have "fst (sync_facebook_data env backend st) =
     \<lparr>status = 200, success = True, message = Some ''Facebook data sync completed'',
      error = None, adAccounts = None\<rparr>"
    by (simp add: sync_facebook_data_def)
  moreover have "processFacebookData (env\<lparr>adaccounts := Failed\<rparr>) backend st = (Inr (), st)"
    by (simp add: processFacebookData_def processFacebookData_body_def getAdAccounts_def
        getAdAccounts_body_def)
  ultimately show ?thesis
    by (simp add: sync_facebook_data_def)
qed

theorem sync_endpoint_never_500_witness:
  "sync_facebook_data
     \<lparr>adaccounts = Failed, campaigns_of = (\<lambda>a. Failed), insights_of = (\<lambda>a. Failed),
      window_of = (\<lambda>a. ([], []))\<rparr>
     (\<lambda>r. Stored) \<lparr>rows = [], requests = []\<rparr> =
     (\<lparr>status = 200, success = True, message = Some ''Facebook data sync completed'',
       error = None, adAccounts = None\<rparr>, \<lparr>rows = [], requests = []\<rparr>)"
  using sync_endpoint_never_500 [of
      "\<lparr>adaccounts = Failed, campaigns_of = (\<lambda>a. Failed), insights_of = (\<lambda>a. Failed),
        window_of = (\<lambda>a. ([], []))\<rparr>" "\<lambda>r. Stored" "\<lparr>rows = [], requests = []\<rparr>"]
  by simp

lemma process_accounts_step:
  "process_accounts env backend (b # others) st =
     (if account_status b \<noteq> 1 then process_accounts env backend others st
      else process_accounts env backend others
             (snd (saveFunnelData backend (account_funnels env b) st)))"
proof -
  let ?id = "js ''act_'' @ remove_first (js ''act_'') (a_id b)"
  obtain fs where f: "fetchFacebookAdData (window_of env ?id) (campaigns_of env ?id)
      (insights_of env ?id) = Inr fs"
    using fetchFacebookAdData_Inr by blast
  obtain st' where s: "saveFunnelData backend fs st = (Inr (), st')"
    using saveFunnelData_Inr by blast
  show ?thesis
    using f s by (simp add: account_funnels_def Let_def)
qed

lemma save_loop_requests:
  assumes "\<forall>r. backend r \<noteq> Thrown"
  shows "requests (snd (save_loop backend fs st))
           = requests st @ map (\<lambda>f. f\<lparr>is_current_week := Some True\<rparr>) fs"
proof (induction fs arbitrary: st)
  case Nil
  then show ?case by simp
next
  case (Cons f fs)
  show ?case
    using assms Cons.IH
    by (cases "backend (f\<lparr>is_current_week := Some True\<rparr>)") (simp_all add: Let_def)
qed

lemma saveFunnelData_snd: "snd (saveFunnelData backend fs st) = snd (save_loop backend fs st)"
  by (cases "save_loop backend fs st"; cases "fst (save_loop backend fs st)")
     (auto simp: saveFunnelData_def)

lemma saveFunnelData_requests:
  assumes "\<forall>r. backend r \<noteq> Thrown"
  shows "requests (snd (saveFunnelData backend fs st))
           = requests st @ map (\<lambda>f. f\<lparr>is_current_week := Some True\<rparr>) fs"
  unfolding saveFunnelData_snd using assms by (rule save_loop_requests)

lemma process_accounts_completes: "fst (process_accounts env backend accounts st) = Inr ()"
proof (induction accounts arbitrary: st)
  case Nil
  then show ?case by simp
next
  case (Cons b others)
  show ?case unfolding process_accounts_step using Cons.IH by simp
qed

lemma process_accounts_requests:
  assumes "\<forall>r. backend r \<noteq> Thrown"
  shows "requests (snd (process_accounts env backend accounts st))
           = requests st @ concat (map (\<lambda>a. map (\<lambda>f. f\<lparr>is_current_week := Some True\<rparr>)
                                           (account_funnels env a))
                                    (filter (\<lambda>a. account_status a = 1) accounts))"
proof (induction accounts arbitrary: st)
  case Nil
  then show ?case by simp
next
  case (Cons b others)
  show ?case
    unfolding process_accounts_step using Cons.IH
    by (simp add: saveFunnelData_requests [OF assms])
qed

text \<open>
  Claim C7. When the fetch of an active account raises anything (a failed request to the
  campaigns or to the insights endpoint in particular), the fetch returns the empty
  array and the writer writes nothing for that account. The cycle does not stop there:
  it goes on with the remaining accounts from the same store, the next active account
  is fetched and its accumulators are handed to the writer, the cycle completes, and
  (when the store client does not throw) the rows sent to the store are exactly those of
  the remaining active accounts, in order.
\<close>

theorem fetch_error_is_isolated:
  assumes "account_status account = 1"
    and "adAccountId = js ''act_'' @ remove_first (js ''act_'') (a_id account)"
    and "fetchFacebookAdData_body (window_of env adAccountId) (campaigns_of env adAccountId)
           (insights_of env adAccountId) = Inl e"
  shows "fetchFacebookAdData (window_of env adAccountId) (campaigns_of env adAccountId)
           (insights_of env adAccountId) = Inr []
         \<and> account_funnels env account = []
         \<and> saveFunnelData backend [] st = (Inr (), st)
         \<and> process_accounts env backend (account # rest) st
             = process_accounts env backend rest st
         \<and> (\<forall>b others. rest = b # others \<and> account_status b = 1 \<longrightarrow>
               process_accounts env backend (account # rest) st
                 = process_accounts env backend others
                     (snd (saveFunnelData backend (account_funnels env b) st)))
         \<and> fst (process_accounts env backend (account # rest) st) = Inr ()
         \<and> ((\<forall>r. backend r \<noteq> Thrown) \<longrightarrow>
               requests (snd (process_accounts env backend (account # rest) st))
                 = requests st @ concat (map (\<lambda>a. map (\<lambda>f. f\<lparr>is_current_week := Some True\<rparr>)
                                                 (account_funnels env a))
                                          (filter (\<lambda>a. account_status a = 1) rest)))
         \<and> fetchFacebookAdData_body w Failed insightsResponse = Inl AxiosError
         \<and> fetchFacebookAdData_body w (Data cs) Failed = Inl AxiosError"
proof -
  have f: "fetchFacebookAdData (window_of env adAccountId) (campaigns_of env adAccountId)
           (insights_of env adAccountId) = Inr []"
    using assms(3) by (simp add: fetchFacebookAdData_def)
  then have af: "account_funnels env account = []"
    unfolding assms(2) by (simp add: account_funnels_def Let_def)
  have p: "process_accounts env backend (account # rest) st
             = process_accounts env backend rest st"
    using assms(1) f unfolding assms(2) by (rule process_accounts_empty_fetch)
  have step: "\<forall>b others. rest = b # others \<and> account_status b = 1 \<longrightarrow>
               process_accounts env backend (account # rest) st
                 = process_accounts env backend others
                     (snd (saveFunnelData backend (account_funnels env b) st))"
    unfolding p by (auto simp del: process_accounts.simps simp add: process_accounts_step)
  have req: "(\<forall>r. backend r \<noteq> Thrown) \<longrightarrow>
               requests (snd (process_accounts env backend (account # rest) st))
                 = requests st @ concat (map (\<lambda>a. map (\<lambda>f. f\<lparr>is_current_week := Some True\<rparr>)
                                                 (account_funnels env a))
                                          (filter (\<lambda>a. account_status a = 1) rest))"
    unfolding p using process_accounts_requests by blast
  have fin: "fst (process_accounts env backend (account # rest) st) = Inr ()"
    by (rule process_accounts_completes)
  have t: "fetchFacebookAdData_body w Failed insightsResponse = Inl AxiosError"
    "fetchFacebookAdData_body w (Data cs) Failed = Inl AxiosError"
    by (simp_all add: fetchFacebookAdData_body_def)
  show ?thesis
    using f af p step req fin t saveFunnelData_Nil by blast
qed

lemma example_account_id:
  "js ''act_1'' = js ''act_'' @ remove_first (js ''act_'') (a_id (example_account ''act_1''))"
  by code_simp

lemma failing_remote_rest:
  "process_accounts failing_remote (\<lambda>r. Stored)
     [example_account ''act_2'', example_account ''act_3''] empty_store
   = (Inr (),
      \<lparr>rows = [(example_funnel ''1'' 5 10 4 1)
                 \<lparr>frequency := Fin (5 / 2), campaigns := None, link_ctr := Some (Fin 10),
                  is_current_week := Some True\<rparr>,
               (example_funnel ''2'' 6 12 4 3)
                 \<lparr>frequency := Fin 3, campaigns := None, link_ctr := Some (Fin 25),
                  is_current_week := Some True\<rparr>],
       requests = [(example_funnel ''1'' 5 10 4 1)
                 \<lparr>frequency := Fin (5 / 2), campaigns := None, link_ctr := Some (Fin 10),
                  is_current_week := Some True\<rparr>,
               (example_funnel ''2'' 6 12 4 3)
                 \<lparr>frequency := Fin 3, campaigns := None, link_ctr := Some (Fin 25),
                  is_current_week := Some True\<rparr>]\<rparr>)"
  by code_simp

theorem fetch_error_is_isolated_witness:
  "account_status (example_account ''act_1'') = 1
   \<and> fetchFacebookAdData_body (window_of failing_remote (js ''act_1''))
        (campaigns_of failing_remote (js ''act_1''))
        (insights_of failing_remote (js ''act_1'')) = Inl AxiosError
   \<and> process_accounts failing_remote (\<lambda>r. Stored)
        [example_account ''act_1'', example_account ''act_2'', example_account ''act_3'']
        empty_store
      = (Inr (),
      \<lparr>rows = [(example_funnel ''1'' 5 10 4 1)
                 \<lparr>frequency := Fin (5 / 2), campaigns := None, link_ctr := Some (Fin 10),
                  is_current_week := Some True\<rparr>,
               (example_funnel ''2'' 6 12 4 3)
                 \<lparr>frequency := Fin 3, campaigns := None, link_ctr := Some (Fin 25),
                  is_current_week := Some True\<rparr>],
       requests = [(example_funnel ''1'' 5 10 4 1)
                 \<lparr>frequency := Fin (5 / 2), campaigns := None, link_ctr := Some (Fin 10),
                  is_current_week := Some True\<rparr>,
               (example_funnel ''2'' 6 12 4 3)
                 \<lparr>frequency := Fin 3, campaigns := None, link_ctr := Some (Fin 25),
                  is_current_week := Some True\<rparr>]\<rparr>)"
proof -
  have a: "account_status (example_account ''act_1'') = 1"
    by (simp add: example_account_def)
  have b: "fetchFacebookAdData_body (window_of failing_remote (js ''act_1''))
        (campaigns_of failing_remote (js ''act_1''))
        (insights_of failing_remote (js ''act_1'')) = Inl AxiosError"
    by (simp add: failing_remote_def fetchFacebookAdData_body_def)
  from fetch_error_is_isolated [OF a example_account_id b,
      of "\<lambda>r. Stored" empty_store "[example_account ''act_2'', example_account ''act_3'']"]
  have "process_accounts failing_remote (\<lambda>r. Stored)
        [example_account ''act_1'', example_account ''act_2'', example_account ''act_3'']
        empty_store
      = process_accounts failing_remote (\<lambda>r. Stored)
        [example_account ''act_2'', example_account ''act_3''] empty_store"
    by blast
  then show ?thesis
    using a b failing_remote_rest by simp
qed

subsection \<open>The scenario of two campaigns of funnel 1\<close>

lemma scenario_body:
  "fetchFacebookAdData_body example_window (Data [])
     (Data [example_insight ''Funnel 1 - Top'' ''100'' ''1000'' ''500'' ''20'',
            example_insight ''Funnel 1 - Mid'' ''50'' ''500'' ''250'' ''10''])
   = Inr [(example_funnel ''1'' 150 1500 750 30)
            \<lparr>frequency := Fin 2, campaigns := None, link_ctr := Some (Fin 2)\<rparr>]"
  by code_simp

lemma scenario_fetch:
  "fetchFacebookAdData example_window (Data [])
     (Data [example_insight ''Funnel 1 - Top'' ''100'' ''1000'' ''500'' ''20'',
            example_insight ''Funnel 1 - Mid'' ''50'' ''500'' ''250'' ''10''])
   = Inr [(example_funnel ''1'' 150 1500 750 30)
            \<lparr>frequency := Fin 2, campaigns := None, link_ctr := Some (Fin 2)\<rparr>]"
  by (simp add: fetchFacebookAdData_def scenario_body)

subsection \<open>Derived metrics\<close>

lemma object_values_Nil: "object_values [] = []"
  by (simp add: object_values_def)

lemma object_values_set: "set (object_values ps) = snd ` set ps"
  by (auto simp: object_values_def)

lemma map_entry_cases:
  "(k', v') \<in> set (AList.map_entry k g xs) \<Longrightarrow>
     (k', v') \<in> set xs \<or> (\<exists>v. (k', v) \<in> set xs \<and> v' = g v)"
  by (induction xs) (auto split: if_splits)

lemma fold_insight_untouched:
  assumes "fold_insight w m fd i = Inr fd'"
    and "\<forall>p\<in>set fd. frequency (snd p) = Fin 0 \<and> link_ctr (snd p) = None"
  shows "\<forall>p\<in>set fd'. frequency (snd p) = Fin 0 \<and> link_ctr (snd p) = None"
proof
  fix p assume p: "p \<in> set fd'"
  obtain n where n: "resolve_name m i = Inr n"
    using assms(1) by (cases "resolve_name m i") (simp_all add: fold_insight_def)
  define fd1 where "fd1 = (if map_of fd (classify n) = None
     then fd @ [(classify n, new_funnel w (classify n))] else fd)"
  have fd': "fd' = AList.map_entry (classify n) (add_insight n i) fd1"
    using assms(1) n by (simp add: fold_insight_def fd1_def Let_def)
  have q: "\<forall>p\<in>set fd1. frequency (snd p) = Fin 0 \<and> link_ctr (snd p) = None"
    using assms(2) by (auto simp: fd1_def new_funnel_def)
  have "(fst p, snd p) \<in> set (AList.map_entry (classify n) (add_insight n i) fd1)"
    using p fd' by simp
  then have "(fst p, snd p) \<in> set fd1
             \<or> (\<exists>v. (fst p, v) \<in> set fd1 \<and> snd p = add_insight n i v)"
    by (rule map_entry_cases)
  then show "frequency (snd p) = Fin 0 \<and> link_ctr (snd p) = None"
    using q by (auto simp: add_insight_def)
qed

lemma aggregate_untouched:
  "aggregate w m ins fd = Inr fd' \<Longrightarrow>
   \<forall>p\<in>set fd. frequency (snd p) = Fin 0 \<and> link_ctr (snd p) = None \<Longrightarrow>
   \<forall>p\<in>set fd'. frequency (snd p) = Fin 0 \<and> link_ctr (snd p) = None"
proof (induction ins arbitrary: fd)
  case Nil
  then show ?case by simp
next
  case (Cons i ins)
  from Cons.prems(1) obtain fd1 where s: "fold_insight w m fd i = Inr fd1"
    and r: "aggregate w m ins fd1 = Inr fd'"
    by (cases "fold_insight w m fd i") simp_all
  from s Cons.prems(2)
  have "\<forall>p\<in>set fd1. frequency (snd p) = Fin 0 \<and> link_ctr (snd p) = None"
    by (rule fold_insight_untouched)
  with r show ?case by (rule Cons.IH)
qed

lemma fetch_funnel_finalized:
  assumes "fetchFacebookAdData w cr ir = Inr funnels" and "f \<in> set funnels"
  shows "\<exists>g. f = finalize g \<and> frequency g = Fin 0 \<and> link_ctr g = None"
proof (cases "fetchFacebookAdData_body w cr ir")
  case (Inl e)
  with assms show ?thesis by (simp add: fetchFacebookAdData_def)
next
  case (Inr fs)
  with assms(1) have fs: "fs = funnels" by (simp add: fetchFacebookAdData_def)
  from Inr obtain cs ins fd where "aggregate w (build_campaign_map cs) ins [] = Inr fd"
    and "fs = map finalize (object_values fd)"
    by (auto simp: fetchFacebookAdData_body_def split: reply.splits sum.splits)
  moreover from this(1)
  have "\<forall>p\<in>set fd. frequency (snd p) = Fin 0 \<and> link_ctr (snd p) = None"
    by (rule aggregate_untouched) simp
  ultimately show ?thesis
    using assms(2) fs by (auto simp: object_values_set)
qed

text \<open>
  Claim C4. In every accumulator that a fetch returns, \<open>frequency\<close> is the quotient
  \<open>impressions / reach\<close> (the division of Numbers, that is the quotient rounded to a
  double) when \<open>reach > 0\<close>, and \<open>0\<close> when \<open>reach\<close> is \<open>0\<close> (or anything else that is
  not greater than \<open>0\<close>).
\<close>

theorem frequency_finalized:
  assumes "fetchFacebookAdData w campaignsResponse insightsResponse = Inr funnels"
    and "f \<in> set funnels"
  shows "(js_gt (reach f) (Fin 0) \<longrightarrow> frequency f = js_div (impressions f) (reach f))
         \<and> (\<forall>a b. impressions f = Fin a \<and> reach f = Fin b \<and> 0 < b
                \<longrightarrow> frequency f = to_double (a / b))
         \<and> (reach f = Fin 0 \<longrightarrow> frequency f = Fin 0)
         \<and> (\<not> js_gt (reach f) (Fin 0) \<longrightarrow> frequency f = Fin 0)"
proof -
  obtain g where "f = finalize g" "frequency g = Fin 0"
    using fetch_funnel_finalized [OF assms] by blast
  then show ?thesis
    by (auto simp: finalize_def Let_def)
qed

theorem frequency_finalized_witness:
  "fetchFacebookAdData example_window (Data [])
     (Data [example_insight ''Funnel 1 - Top'' ''100'' ''1000'' ''500'' ''20'',
            example_insight ''Funnel 1 - Mid'' ''50'' ''500'' ''250'' ''10''])
   = Inr [(example_funnel ''1'' 150 1500 750 30)
            \<lparr>frequency := Fin 2, campaigns := None, link_ctr := Some (Fin 2)\<rparr>]
   \<and> js_gt (reach ((example_funnel ''1'' 150 1500 750 30)
            \<lparr>frequency := Fin 2, campaigns := None, link_ctr := Some (Fin 2)\<rparr>)) (Fin 0)
   \<and> frequency ((example_funnel ''1'' 150 1500 750 30)
            \<lparr>frequency := Fin 2, campaigns := None, link_ctr := Some (Fin 2)\<rparr>)
      = js_div (Fin 1500) (Fin 750)"
proof -
  let ?f = "(example_funnel ''1'' 150 1500 750 30)
            \<lparr>frequency := Fin 2, campaigns := None, link_ctr := Some (Fin 2)\<rparr>"
  have g: "js_gt (reach ?f) (Fin 0)" by (simp add: example_funnel_def)
  have "?f \<in> set [?f]" by simp
  from frequency_finalized [OF scenario_fetch this] g
  have "frequency ?f = js_div (impressions ?f) (reach ?f)" by blast
  then show ?thesis
    using g scenario_fetch by (simp add: example_funnel_def)
qed

text \<open>
  Claim C5. In every accumulator that a fetch returns, \<open>link_ctr\<close> is
  \<open>(ads_link_clicks / impressions) * 100\<close> in the arithmetic of Numbers when
  \<open>impressions > 0\<close>, and is absent when \<open>impressions\<close> is \<open>0\<close> (or anything else that
  is not greater than \<open>0\<close>).
\<close>

theorem link_ctr_finalized:
  assumes "fetchFacebookAdData w campaignsResponse insightsResponse = Inr funnels"
    and "f \<in> set funnels"
  shows "(js_gt (impressions f) (Fin 0) \<longrightarrow>
            link_ctr f = Some (js_mul (js_div (ads_link_clicks f) (impressions f)) (Fin 100)))
         \<and> (\<forall>c a. ads_link_clicks f = Fin c \<and> impressions f = Fin a \<and> 0 < a
                \<longrightarrow> link_ctr f = Some (js_mul (to_double (c / a)) (Fin 100)))
         \<and> (impressions f = Fin 0 \<longrightarrow> link_ctr f = None)
         \<and> (\<not> js_gt (impressions f) (Fin 0) \<longrightarrow> link_ctr f = None)"
proof -
  obtain g where "f = finalize g" "link_ctr g = None"
    using fetch_funnel_finalized [OF assms] by blast
  then show ?thesis
    by (auto simp: finalize_def Let_def)
qed

theorem link_ctr_finalized_witness:
  "fetchFacebookAdData example_window (Data [])
     (Data [example_insight ''Funnel 1 - Top'' ''100'' ''1000'' ''500'' ''20'',
            example_insight ''Funnel 1 - Mid'' ''50'' ''500'' ''250'' ''10''])
   = Inr [(example_funnel ''1'' 150 1500 750 30)
            \<lparr>frequency := Fin 2, campaigns := None, link_ctr := Some (Fin 2)\<rparr>]
   \<and> js_gt (impressions ((example_funnel ''1'' 150 1500 750 30)
            \<lparr>frequency := Fin 2, campaigns := None, link_ctr := Some (Fin 2)\<rparr>)) (Fin 0)
   \<and> link_ctr ((example_funnel ''1'' 150 1500 750 30)
            \<lparr>frequency := Fin 2, campaigns := None, link_ctr := Some (Fin 2)\<rparr>)
      = Some (js_mul (js_div (Fin 30) (Fin 1500)) (Fin 100))"
proof -
  let ?f = "(example_funnel ''1'' 150 1500 750 30)
            \<lparr>frequency := Fin 2, campaigns := None, link_ctr := Some (Fin 2)\<rparr>"
  have g: "js_gt (impressions ?f) (Fin 0)" by (simp add: example_funnel_def)
  have "?f \<in> set [?f]" by simp
  from link_ctr_finalized [OF scenario_fetch this] g
  have "link_ctr ?f = Some (js_mul (js_div (ads_link_clicks ?f) (impressions ?f)) (Fin 100))"
    by blast
  then show ?thesis
    using g scenario_fetch by (simp add: example_funnel_def)
qed

subsection \<open>Accounts without data\<close>

text \<open>
  Claim C8, as amended. An active account whose window has no insight records yields no
  accumulator and no store write, whatever its campaign list is. (The loop runs over the
  insight records; the campaign list only supplies names.)
\<close>

theorem zero_insights_no_writes:
  assumes "account_status account = 1"
    and "adAccountId = js ''act_'' @ remove_first (js ''act_'') (a_id account)"
    and "insights_of env adAccountId = Data []"
  shows "fetchFacebookAdData (window_of env adAccountId) (campaigns_of env adAccountId)
           (insights_of env adAccountId) = Inr []
         \<and> saveFunnelData backend [] st = (Inr (), st)
         \<and> process_accounts env backend (account # rest) st
             = process_accounts env backend rest st"
proof -
  have f: "fetchFacebookAdData (window_of env adAccountId) (campaigns_of env adAccountId)
           (insights_of env adAccountId) = Inr []"
    using assms(3)
    by (cases "campaigns_of env adAccountId")
       (simp_all add: fetchFacebookAdData_def fetchFacebookAdData_body_def object_values_Nil)
  have "process_accounts env backend (account # rest) st = process_accounts env backend rest st"
    using assms(1) f unfolding assms(2) by (rule process_accounts_empty_fetch)
  then show ?thesis
    using f by (simp add: saveFunnelData_Nil)
qed

theorem zero_insights_no_writes_witness:
  "account_status (example_account ''act_1'') = 1
   \<and> insights_of (example_remote (Data [\<lparr>c_id = Str (js ''11''), c_name = Str (js ''Funnel 1'')\<rparr>])
        (Data [])) (js ''act_1'') = Data []
   \<and> process_accounts
        (example_remote (Data [\<lparr>c_id = Str (js ''11''), c_name = Str (js ''Funnel 1'')\<rparr>])
           (Data []))
        (\<lambda>r. Stored) [example_account ''act_1''] empty_store
      = (Inr (), empty_store)"
proof -
  let ?env = "example_remote (Data [\<lparr>c_id = Str (js ''11''), c_name = Str (js ''Funnel 1'')\<rparr>])
           (Data [])"
  have a: "account_status (example_account ''act_1'') = 1"
    by (simp add: example_account_def)
  have i: "insights_of ?env (js ''act_1'') = Data []"
    by (simp add: example_remote_def)
  from zero_insights_no_writes [OF a example_account_id i, of "\<lambda>r. Stored" empty_store "[]"]
  show ?thesis
    using a i by simp
qed

text \<open>
  The claim as stated fails for an account with an empty campaign list whose insights
  are not empty: one accumulator is produced and written.
\<close>

theorem zero_campaigns_counterexample:
  "fetchFacebookAdData example_window (Data [])
     (Data [example_insight ''Funnel 1'' ''5'' ''10'' ''4'' ''1''])
   = Inr [(example_funnel ''1'' 5 10 4 1)
            \<lparr>frequency := Fin (5 / 2), campaigns := None, link_ctr := Some (Fin 10)\<rparr>]
   \<and> process_accounts
        (example_remote (Data []) (Data [example_insight ''Funnel 1'' ''5'' ''10'' ''4'' ''1'']))
        (\<lambda>r. Stored) [example_account ''act_1''] empty_store
     = (Inr (),
        \<lparr>rows = [(example_funnel ''1'' 5 10 4 1)
            \<lparr>frequency := Fin (5 / 2), campaigns := None, link_ctr := Some (Fin 10),
             is_current_week := Some True\<rparr>],
         requests = [(example_funnel ''1'' 5 10 4 1)
            \<lparr>frequency := Fin (5 / 2), campaigns := None, link_ctr := Some (Fin 10),
             is_current_week := Some True\<rparr>]\<rparr>)"
  by code_simp

subsection \<open>The writer\<close>

lemma funnel_key_stamp [simp]: "funnel_key (f\<lparr>is_current_week := v\<rparr>) = funnel_key f"
  by (simp add: funnel_key_def)

lemma upsert_row_keys:
  "set (map funnel_key (upsert_row r xs)) = insert (funnel_key r) (set (map funnel_key xs))"
  by (induction xs) auto

lemma upsert_row_distinct:
  "distinct (map funnel_key xs) \<Longrightarrow> distinct (map funnel_key (upsert_row r xs))"
proof (induction xs)
  case Nil
  then show ?case by simp
next
  case (Cons x xs)
  have "set (map funnel_key (upsert_row r xs)) = insert (funnel_key r) (set (map funnel_key xs))"
    by (rule upsert_row_keys)
  with Cons show ?case by auto
qed

lemma upsert_row_filter:
  "distinct (map funnel_key xs) \<Longrightarrow>
     filter (\<lambda>x. funnel_key x = funnel_key r) (upsert_row r xs) = [r]"
proof (induction xs)
  case Nil
  then show ?case by simp
next
  case (Cons x xs)
  show ?case
  proof (cases "funnel_key x = funnel_key r")
    case True
    with Cons.prems have "\<forall>y\<in>set xs. funnel_key y \<noteq> funnel_key r"
      by (auto simp: image_iff)
    then have "filter (\<lambda>x. funnel_key x = funnel_key r) xs = []"
      by (simp add: filter_empty_conv)
    with True show ?thesis by simp
  next
    case False
    with Cons show ?thesis by simp
  qed
qed

lemma save_loop_stored:
  assumes "\<forall>f\<in>set fs. backend (f\<lparr>is_current_week := Some True\<rparr>) = Stored"
  shows "save_loop backend fs st =
           (Inr (), \<lparr>rows = foldl (\<lambda>rs f. upsert_row (f\<lparr>is_current_week := Some True\<rparr>) rs)
                               (rows st) fs,
                     requests = requests st @ map (\<lambda>f. f\<lparr>is_current_week := Some True\<rparr>) fs\<rparr>)"
  using assms
proof (induction fs arbitrary: st)
  case Nil
  then show ?case by simp
next
  case (Cons f fs)
  then show ?case by (simp add: Let_def)
qed

lemma saveFunnelData_stored:
  assumes "\<forall>f\<in>set fs. backend (f\<lparr>is_current_week := Some True\<rparr>) = Stored"
  shows "saveFunnelData backend fs st =
           (Inr (), \<lparr>rows = foldl (\<lambda>rs f. upsert_row (f\<lparr>is_current_week := Some True\<rparr>) rs)
                               (rows st) fs,
                     requests = requests st @ map (\<lambda>f. f\<lparr>is_current_week := Some True\<rparr>) fs\<rparr>)"
proof (cases fs)
  case Nil
  then show ?thesis by (simp add: saveFunnelData_def)
next
  case (Cons f fs')
  then show ?thesis
    using save_loop_stored [OF assms, of st] by (simp add: saveFunnelData_def)
qed

lemma upsert_row_filter_other:
  "funnel_key r \<noteq> k \<Longrightarrow>
     filter (\<lambda>x. funnel_key x = k) (upsert_row r xs) = filter (\<lambda>x. funnel_key x = k) xs"
  by (induction xs) auto

lemma upsert_row_present:
  "distinct (map funnel_key xs) \<Longrightarrow> r \<in> set xs \<Longrightarrow> upsert_row r xs = xs"
proof (induction xs)
  case Nil
  then show ?case by simp
next
  case (Cons x xs)
  show ?case
  proof (cases "funnel_key x = funnel_key r")
    case True
    have "r = x"
    proof (rule ccontr)
      assume "r \<noteq> x"
      with Cons.prems(2) have "r \<in> set xs" by simp
      then have "funnel_key r \<in> funnel_key ` set xs" by (rule imageI)
      with True Cons.prems(1) show False by simp
    qed
    with True show ?thesis by simp
  next
    case False
    with Cons show ?thesis by auto
  qed
qed

lemma foldl_upsert_distinct:
  "distinct (map funnel_key rs) \<Longrightarrow>
     distinct (map funnel_key (foldl (\<lambda>rs f. upsert_row (g f) rs) rs fs))"
  by (induction fs arbitrary: rs) (simp_all add: upsert_row_distinct)

lemma foldl_upsert_keys:
  "funnel_key ` set (foldl (\<lambda>rs f. upsert_row (g f) rs) rs fs)
     = funnel_key ` set rs \<union> (\<lambda>f. funnel_key (g f)) ` set fs"
proof (induction fs arbitrary: rs)
  case Nil
  then show ?case by simp
next
  case (Cons f fs)
  have "funnel_key ` set (upsert_row (g f) rs) = insert (funnel_key (g f)) (funnel_key ` set rs)"
    using upsert_row_keys [of "g f" rs] by simp
  then show ?case using Cons.IH [of "upsert_row (g f) rs"] by auto
qed

lemma foldl_upsert_filter:
  assumes "distinct (map funnel_key rs)"
  shows "filter (\<lambda>x. funnel_key x = k) (foldl (\<lambda>rs f. upsert_row (g f) rs) rs fs)
          = (if filter (\<lambda>f. funnel_key (g f) = k) fs = []
             then filter (\<lambda>x. funnel_key x = k) rs
             else [g (last (filter (\<lambda>f. funnel_key (g f) = k) fs))])"
proof (induction fs rule: rev_induct)
  case Nil
  then show ?case by simp
next
  case (snoc f fs)
  let ?prev = "foldl (\<lambda>rs f. upsert_row (g f) rs) rs fs"
  have d: "distinct (map funnel_key ?prev)"
    using assms by (rule foldl_upsert_distinct)
  show ?case
  proof (cases "funnel_key (g f) = k")
    case True
    have "filter (\<lambda>x. funnel_key x = funnel_key (g f)) (upsert_row (g f) ?prev) = [g f]"
      using d by (rule upsert_row_filter)
    with True show ?thesis by simp
  next
    case False
    then show ?thesis
      using snoc.IH by (simp add: upsert_row_filter_other)
  qed
qed

lemma foldl_upsert_again:
  assumes "distinct (map funnel_key rs)" and "\<forall>f\<in>set fs. g f \<in> set rs"
  shows "foldl (\<lambda>rs f. upsert_row (g f) rs) rs fs = rs"
  using assms(2)
proof (induction fs)
  case Nil
  then show ?case by simp
next
  case (Cons f fs)
  then have "upsert_row (g f) rs = rs"
    using assms(1) by (simp add: upsert_row_present)
  with Cons show ?case by simp
qed

lemma filter_singleton_mem: "filter P xs = [x] \<Longrightarrow> x \<in> set xs"
proof -
  assume "filter P xs = [x]"
  then have "x \<in> set (filter P xs)" by simp
  then show ?thesis by simp
qed

lemma distinct_key_filter:
  assumes "distinct (map funnel_key fs)" and "b \<in> set fs"
  shows "filter (\<lambda>f. funnel_key f = funnel_key b) fs = [b]"
  using assms
proof (induction fs)
  case Nil
  then show ?case by simp
next
  case (Cons f fs)
  show ?case
  proof (cases "f = b")
    case True
    with Cons.prems(1) have "\<forall>y\<in>set fs. funnel_key y \<noteq> funnel_key b"
      by (auto simp: image_iff)
    then have "filter (\<lambda>f. funnel_key f = funnel_key b) fs = []"
      by (simp add: filter_empty_conv)
    with True show ?thesis by simp
  next
    case False
    with Cons.prems have b: "b \<in> set fs" by simp
    then have "funnel_key b \<in> funnel_key ` set fs" by (rule imageI)
    with Cons.prems(1) have "funnel_key f \<noteq> funnel_key b" by auto
    with Cons b show ?thesis by simp
  qed
qed

text \<open>
  Claim C2. A cycle writes every accumulator of its array, one row each. In a store that
  holds at most one row per key, after two cycles of accepted writes, for an accumulator
  of the second array whose key was also written by the first: the store holds exactly
  one row for that key, the one written last under it in the second array (the
  accumulator itself, stamped as the current week, when the keys of the array are
  distinct, as those of a fetch are). Keys stay unique, no key disappears and none is
  invented, the rows under keys that were not written stay as they were, a second cycle
  over keys of the first adds no row, and writing the same array twice leaves the rows
  of the first write.
\<close>

theorem upsert_twice_one_row:
  assumes "distinct (map funnel_key (rows st))"
    and "\<forall>f\<in>set fs1 \<union> set fs2. backend (f\<lparr>is_current_week := Some True\<rparr>) = Stored"
    and "st1 = snd (saveFunnelData backend fs1 st)"
    and "st2 = snd (saveFunnelData backend fs2 st1)"
    and "a \<in> set fs1" and "b \<in> set fs2" and "funnel_key a = funnel_key b"
  shows "filter (\<lambda>r. funnel_key r = funnel_key b) (rows st2)
           = [(last (filter (\<lambda>f. funnel_key f = funnel_key b) fs2))\<lparr>is_current_week := Some True\<rparr>]
         \<and> (distinct (map funnel_key fs2) \<longrightarrow>
              filter (\<lambda>r. funnel_key r = funnel_key b) (rows st2)
                = [b\<lparr>is_current_week := Some True\<rparr>])
         \<and> distinct (map funnel_key (rows st2))
         \<and> funnel_key ` set (rows st2)
             = funnel_key ` set (rows st) \<union> funnel_key ` set fs1 \<union> funnel_key ` set fs2
         \<and> (\<forall>k. k \<notin> funnel_key ` (set fs1 \<union> set fs2) \<longrightarrow>
               filter (\<lambda>r. funnel_key r = k) (rows st2)
                 = filter (\<lambda>r. funnel_key r = k) (rows st))
         \<and> (funnel_key ` set fs2 \<subseteq> funnel_key ` set fs1 \<longrightarrow>
               length (rows st2) = length (rows st1))
         \<and> (fs2 = fs1 \<and> distinct (map funnel_key fs1) \<longrightarrow> rows st2 = rows st1)
         \<and> requests st2
             = requests st @ map (\<lambda>f. f\<lparr>is_current_week := Some True\<rparr>) fs1
                 @ map (\<lambda>f. f\<lparr>is_current_week := Some True\<rparr>) fs2"
proof -
  let ?g = "\<lambda>f. f\<lparr>is_current_week := Some True\<rparr>"
  let ?up = "\<lambda>rs f. upsert_row (?g f) rs"
  have s1: "\<forall>f\<in>set fs1. backend (?g f) = Stored" and s2: "\<forall>f\<in>set fs2. backend (?g f) = Stored"
    using assms(2) by simp_all
  have r1: "rows st1 = foldl ?up (rows st) fs1"
    and q1: "requests st1 = requests st @ map ?g fs1"
    unfolding assms(3) by (simp_all add: saveFunnelData_stored [OF s1])
  have r2: "rows st2 = foldl ?up (rows st1) fs2"
    and q2: "requests st2 = requests st1 @ map ?g fs2"
    unfolding assms(4) by (simp_all add: saveFunnelData_stored [OF s2])
  have d1: "distinct (map funnel_key (rows st1))"
    unfolding r1 using assms(1) by (rule foldl_upsert_distinct)
  have d2: "distinct (map funnel_key (rows st2))"
    unfolding r2 using d1 by (rule foldl_upsert_distinct)
  have k1: "funnel_key ` set (rows st1) = funnel_key ` set (rows st) \<union> funnel_key ` set fs1"
    unfolding r1 by (simp add: foldl_upsert_keys)
  have k2: "funnel_key ` set (rows st2) = funnel_key ` set (rows st1) \<union> funnel_key ` set fs2"
    unfolding r2 by (simp add: foldl_upsert_keys)
  have f1: "filter (\<lambda>x. funnel_key x = k) (rows st1)
          = (if filter (\<lambda>f. funnel_key f = k) fs1 = []
             then filter (\<lambda>x. funnel_key x = k) (rows st)
             else [?g (last (filter (\<lambda>f. funnel_key f = k) fs1))])" for k
    unfolding r1 using foldl_upsert_filter [OF assms(1), of k ?g fs1] by simp
  have f2: "filter (\<lambda>x. funnel_key x = k) (rows st2)
          = (if filter (\<lambda>f. funnel_key f = k) fs2 = []
             then filter (\<lambda>x. funnel_key x = k) (rows st1)
             else [?g (last (filter (\<lambda>f. funnel_key f = k) fs2))])" for k
    unfolding r2 using foldl_upsert_filter [OF d1, of k ?g fs2] by simp
  have ne: "filter (\<lambda>f. funnel_key f = funnel_key b) fs2 \<noteq> []"
    using assms(6) by (auto simp: filter_empty_conv)
  have c1: "filter (\<lambda>r. funnel_key r = funnel_key b) (rows st2)
           = [?g (last (filter (\<lambda>f. funnel_key f = funnel_key b) fs2))]"
    using f2 [of "funnel_key b"] ne by simp
  have c2: "distinct (map funnel_key fs2) \<longrightarrow>
              filter (\<lambda>r. funnel_key r = funnel_key b) (rows st2) = [?g b]"
    using c1 distinct_key_filter [OF _ assms(6)] by simp
  have c4: "funnel_key ` set (rows st2)
             = funnel_key ` set (rows st) \<union> funnel_key ` set fs1 \<union> funnel_key ` set fs2"
    using k1 k2 by simp
  have c5: "\<forall>k. k \<notin> funnel_key ` (set fs1 \<union> set fs2) \<longrightarrow>
               filter (\<lambda>r. funnel_key r = k) (rows st2)
                 = filter (\<lambda>r. funnel_key r = k) (rows st)"
  proof (intro allI impI)
    fix k assume "k \<notin> funnel_key ` (set fs1 \<union> set fs2)"
    then have "filter (\<lambda>f. funnel_key f = k) fs1 = []" "filter (\<lambda>f. funnel_key f = k) fs2 = []"
      by (auto simp: filter_empty_conv)
    then show "filter (\<lambda>r. funnel_key r = k) (rows st2) = filter (\<lambda>r. funnel_key r = k) (rows st)"
      using f1 [of k] f2 [of k] by simp
  qed
  have c6: "funnel_key ` set fs2 \<subseteq> funnel_key ` set fs1 \<longrightarrow> length (rows st2) = length (rows st1)"
  proof
    assume "funnel_key ` set fs2 \<subseteq> funnel_key ` set fs1"
    then have "funnel_key ` set (rows st2) = funnel_key ` set (rows st1)"
      using k1 k2 by auto
    then have "card (set (map funnel_key (rows st2))) = card (set (map funnel_key (rows st1)))"
      by simp
    then show "length (rows st2) = length (rows st1)"
      using d1 d2 by (metis distinct_card length_map)
  qed
  have c7: "fs2 = fs1 \<and> distinct (map funnel_key fs1) \<longrightarrow> rows st2 = rows st1"
  proof
    assume h: "fs2 = fs1 \<and> distinct (map funnel_key fs1)"
    have "?g f \<in> set (rows st1)" if "f \<in> set fs1" for f
    proof -
      have "filter (\<lambda>x. funnel_key x = funnel_key f) fs1 = [f]"
        using h that by (simp add: distinct_key_filter)
      then have "filter (\<lambda>x. funnel_key x = funnel_key f) (rows st1) = [?g f]"
        using f1 [of "funnel_key f"] by simp
      then show ?thesis by (rule filter_singleton_mem)
    qed
    then have "foldl ?up (rows st1) fs1 = rows st1"
      using d1 by (intro foldl_upsert_again) simp_all
    with h show "rows st2 = rows st1" using r2 by simp
  qed
  have c8: "requests st2 = requests st @ map ?g fs1 @ map ?g fs2"
    using q1 q2 by simp
  show ?thesis
    using c1 c2 d2 c4 c5 c6 c7 c8 by blast
qed

theorem upsert_twice_one_row_witness:
  "distinct (map funnel_key (rows empty_store))
   \<and> funnel_key (finalize (example_funnel ''2'' 6 12 4 3))
       = funnel_key (finalize (example_funnel ''2'' 12 24 8 6))
   \<and> filter (\<lambda>r. funnel_key r = funnel_key (finalize (example_funnel ''2'' 12 24 8 6)))
        (rows (snd (saveFunnelData (\<lambda>r. Stored)
           [finalize (example_funnel ''1'' 150 1500 750 30),
            finalize (example_funnel ''2'' 12 24 8 6)]
           (snd (saveFunnelData (\<lambda>r. Stored)
              [finalize (example_funnel ''1'' 100 1000 500 20),
               finalize (example_funnel ''2'' 6 12 4 3)]
              empty_store)))))
     = [(finalize (example_funnel ''2'' 12 24 8 6))\<lparr>is_current_week := Some True\<rparr>]
   \<and> rows (snd (saveFunnelData (\<lambda>r. Stored)
           [finalize (example_funnel ''1'' 150 1500 750 30),
            finalize (example_funnel ''2'' 12 24 8 6)]
           (snd (saveFunnelData (\<lambda>r. Stored)
              [finalize (example_funnel ''1'' 100 1000 500 20),
               finalize (example_funnel ''2'' 6 12 4 3)]
              empty_store))))
     = [(finalize (example_funnel ''1'' 150 1500 750 30))\<lparr>is_current_week := Some True\<rparr>,
        (finalize (example_funnel ''2'' 12 24 8 6))\<lparr>is_current_week := Some True\<rparr>]"
proof -
  let ?a = "finalize (example_funnel ''2'' 6 12 4 3)"
  let ?b = "finalize (example_funnel ''2'' 12 24 8 6)"
  let ?fs1 = "[finalize (example_funnel ''1'' 100 1000 500 20), ?a]"
  let ?fs2 = "[finalize (example_funnel ''1'' 150 1500 750 30), ?b]"
  have d: "distinct (map funnel_key (rows empty_store))"
    by (simp add: empty_store_def)
  have s: "\<forall>f\<in>set ?fs1 \<union> set ?fs2. (\<lambda>r. Stored) (f\<lparr>is_current_week := Some True\<rparr>) = Stored"
    by simp
  have k: "funnel_key ?a = funnel_key ?b"
    by code_simp
  have d2: "distinct (map funnel_key ?fs2)"
    by code_simp
  have a: "?a \<in> set ?fs1" and b: "?b \<in> set ?fs2" by simp_all
  from upsert_twice_one_row [OF d s refl refl a b k] d2
  have 1: "filter (\<lambda>r. funnel_key r = funnel_key ?b)
        (rows (snd (saveFunnelData (\<lambda>r. Stored) ?fs2
           (snd (saveFunnelData (\<lambda>r. Stored) ?fs1 empty_store)))))
     = [?b\<lparr>is_current_week := Some True\<rparr>]"
    by blast
  have 2: "rows (snd (saveFunnelData (\<lambda>r. Stored) ?fs2
           (snd (saveFunnelData (\<lambda>r. Stored) ?fs1 empty_store))))
     = [(finalize (example_funnel ''1'' 150 1500 750 30))\<lparr>is_current_week := Some True\<rparr>,
        ?b\<lparr>is_current_week := Some True\<rparr>]"
    by code_simp
  show ?thesis
    using d k 1 2 by blast
qed

subsection \<open>Classification\<close>

lemma digit_not_space: "is_digit c \<Longrightarrow> \<not> is_space c"
  unfolding is_digit_def is_space_def
  by (auto simp: word_le_nat_alt)

lemma rmatch_ci_prefix:
  "rmatch (foldr Seq (map ci_atom ps) r) c s =
     (if length ps \<le> length s \<and> map canonicalize (take (length ps) s) = map canonicalize ps
      then rmatch r c (drop (length ps) s) else [])"
proof (induction ps arbitrary: s)
  case Nil
  then show ?case by simp
next
  case (Cons p ps)
  show ?case
  proof (cases s)
    case Nil
    then show ?thesis by (simp add: ci_atom_def)
  next
    case (Cons x xs)
    then show ?thesis
      using Cons.IH [of xs] by (simp add: ci_atom_def)
  qed
qed

lemma rmatch_star_skip:
  assumes "\<And>c s. s \<noteq> [] \<Longrightarrow> p (hd s) \<Longrightarrow> rmatch r c s = []"
  shows "rmatch (Seq (Star (Atom p)) r) c s = rmatch r c (dropWhile p s)"
proof (induction s)
  case Nil
  then show ?case by simp
next
  case (Cons x xs)
  show ?case
  proof (cases "p x")
    case True
    have "rmatch r c (x # xs) = []"
      using assms [of "x # xs" c] True by simp
    with True Cons show ?thesis by simp
  next
    case False
    then show ?thesis by simp
  qed
qed

lemma rmatch_star_first:
  "\<exists>more. rmatch (Star (Atom p)) c s = (c, dropWhile p s) # more"
proof (induction s)
  case Nil
  then show ?case by simp
next
  case (Cons x xs)
  then obtain more where "rmatch (Star (Atom p)) c xs = (c, dropWhile p xs) # more"
    by blast
  then show ?case by simp
qed

lemma take_takeWhile: "take (Suc (length xs) - length (dropWhile p xs)) (x # xs) = x # takeWhile p xs"
proof -
  have "length xs = length (takeWhile p xs) + length (dropWhile p xs)"
    by (metis length_append takeWhile_dropWhile_id)
  then have "Suc (length xs) - length (dropWhile p xs) = Suc (length (takeWhile p xs))"
    by simp
  moreover have "take (length (takeWhile p xs)) xs = takeWhile p xs"
    by (rule takeWhile_eq_take [symmetric])
  ultimately show ?thesis
    by simp
qed

lemma rmatch_digits_group_none:
  "s = [] \<or> \<not> is_digit (hd s) \<Longrightarrow> rmatch digits_group c s = []"
  by (cases s) (auto simp: digits_group_def)

lemma rmatch_digits_group_some:
  assumes "s \<noteq> []" "is_digit (hd s)"
  shows "\<exists>more. rmatch digits_group c s
          = (c(1 \<mapsto> takeWhile is_digit s), dropWhile is_digit s) # more"
proof -
  obtain x xs where s: "s = x # xs" using assms(1) by (cases s) auto
  obtain more where m: "rmatch (Star (Atom is_digit)) c xs = (c, dropWhile is_digit xs) # more"
    using rmatch_star_first by blast
  show ?thesis
    using assms(2) m unfolding s
    by (simp add: digits_group_def take_takeWhile)
qed

lemma rmatch_spaces_digits:
  "rmatch (Seq (Star (Atom is_space)) digits_group) c t
     = rmatch digits_group c (dropWhile is_space t)"
proof (rule rmatch_star_skip)
  fix c' s assume "s \<noteq> []" "is_space (hd s)"
  then have "\<not> is_digit (hd s)" using digit_not_space by blast
  then show "rmatch digits_group c' s = []" by (simp add: rmatch_digits_group_none)
qed

lemma canonical_Funnel: "map canonicalize (js ''Funnel'') = js ''FUNNEL''"
  by code_simp

lemma length_Funnel: "length (js ''Funnel'') = 6"
  by (simp add: js_def)

lemma length_FUNNEL: "length (js ''FUNNEL'') = 6"
  by (simp add: js_def)

lemma rmatch_funnel_regex:
  "rmatch funnel_regex c s =
     (if map canonicalize (take 6 s) = js ''FUNNEL''
      then rmatch digits_group c (dropWhile is_space (drop 6 s)) else [])"
proof -
  have tail: "\<And>c t. rmatch (Seq (Star (Atom is_space)) digits_group) c t
                 = rmatch digits_group c (dropWhile is_space t)"
    by (rule rmatch_spaces_digits)
  have len: "map canonicalize (take 6 s) = js ''FUNNEL'' \<Longrightarrow> 6 \<le> length s"
  proof -
    assume "map canonicalize (take 6 s) = js ''FUNNEL''"
    then have "length (map canonicalize (take 6 s)) = 6"
      by (simp add: length_FUNNEL)
    then show ?thesis by simp
  qed
  show ?thesis
    unfolding funnel_regex_def rmatch_ci_prefix tail canonical_Funnel length_Funnel
    using len by auto
qed

lemma rmatch_funnel_none: "match_here s = None \<Longrightarrow> rmatch funnel_regex c s = []"
  by (simp add: rmatch_funnel_regex match_here_def Let_def rmatch_digits_group_none
      split: if_splits)

lemma rmatch_funnel_some:
  assumes "match_here s = Some d"
  shows "\<exists>rest more. rmatch funnel_regex c s = (c(1 \<mapsto> d), rest) # more"
proof -
  let ?t = "dropWhile is_space (drop 6 s)"
  from assms have a: "map canonicalize (take 6 s) = js ''FUNNEL''"
    and b: "?t \<noteq> []" "is_digit (hd ?t)" and d: "d = takeWhile is_digit ?t"
    by (auto simp: match_here_def Let_def split: if_splits)
  from rmatch_digits_group_some [OF b, of c] a d show ?thesis
    by (auto simp: rmatch_funnel_regex)
qed

lemma regex_search_find:
  "regex_search funnel_regex s =
     (case find_funnel s of None \<Rightarrow> None | Some d \<Rightarrow> Some (Map.empty(1 \<mapsto> d)))
   \<or> (\<exists>c d. regex_search funnel_regex s = Some c \<and> find_funnel s = Some d \<and> c 1 = Some d)"
proof (induction s)
  case Nil
  show ?case
  proof (cases "match_here []")
    case None
    then show ?thesis using rmatch_funnel_none [OF None, of Map.empty] by simp
  next
    case (Some d)
    then show ?thesis using rmatch_funnel_some [OF Some, of Map.empty] by auto
  qed
next
  case (Cons x xs)
  show ?case
  proof (cases "match_here (x # xs)")
    case None
    then show ?thesis
      using rmatch_funnel_none [OF None, of Map.empty] Cons by simp
  next
    case (Some d)
    then show ?thesis using rmatch_funnel_some [OF Some, of Map.empty] by auto
  qed
qed

lemma classify_find:
  "classify s = (case find_funnel s of None \<Rightarrow> js ''unknown'' | Some d \<Rightarrow> d)"
  using regex_search_find [of s]
  by (auto simp: classify_def split: option.splits)

lemma funnel_token_length: "funnel_token tok \<Longrightarrow> length tok = 6"
proof -
  assume "funnel_token tok"
  then have "length (map canonicalize tok) = length (js ''FUNNEL'')"
    by (simp add: funnel_token_def)
  then show ?thesis by (simp add: length_FUNNEL)
qed

lemma occurrence_match_here:
  assumes "funnel_occurrence name pre tok ws ds post"
  shows "\<exists>d. match_here (drop (length pre) name) = Some d"
proof -
  from assms have n: "name = pre @ tok @ ws @ ds @ post" and t: "funnel_token tok"
    and w: "list_all is_space ws" and d: "ds \<noteq> []" "list_all is_digit ds"
    by (simp_all add: funnel_occurrence_def)
  have l: "length tok = 6" using t by (rule funnel_token_length)
  obtain x xs where ds: "ds = x # xs" using d(1) by (cases ds) auto
  with d(2) have x: "is_digit x" by simp
  then have nx: "\<not> is_space x" by (rule digit_not_space)
  have "dropWhile is_space (ws @ ds @ post) = dropWhile is_space (ds @ post)"
    using w by (simp add: dropWhile_append2 list_all_iff)
  also have "\<dots> = ds @ post" using nx ds by simp
  finally have dw: "dropWhile is_space (ws @ ds @ post) = ds @ post" .
  have "drop (length pre) name = tok @ ws @ ds @ post" using n by simp
  then show ?thesis
    using l t dw x ds by (simp add: match_here_def funnel_token_def)
qed

lemma match_here_occurrence:
  assumes "match_here (drop k name) = Some d"
  shows "funnel_occurrence name (take k name) (take 6 (drop k name))
           (takeWhile is_space (drop (6 + k) name)) d
           (dropWhile is_digit (dropWhile is_space (drop (6 + k) name)))"
proof -
  let ?t = "dropWhile is_space (drop (6 + k) name)"
  from assms have a: "map canonicalize (take 6 (drop k name)) = js ''FUNNEL''"
    and b: "?t \<noteq> []" "is_digit (hd ?t)" and d: "d = takeWhile is_digit ?t"
    by (auto simp: match_here_def Let_def split: if_splits)
  have "name = take k name @ take 6 (drop k name) @ drop (6 + k) name"
    by (metis append_take_drop_id drop_drop)
  also have "drop (6 + k) name = takeWhile is_space (drop (6 + k) name) @ ?t"
    by simp
  also have "?t = d @ dropWhile is_digit ?t"
    unfolding d by simp
  finally have n: "name = take k name @ take 6 (drop k name)
        @ takeWhile is_space (drop (6 + k) name) @ d @ dropWhile is_digit ?t" .
  have "d \<noteq> []" using b d by (cases ?t) auto
  moreover have "list_all is_digit d"
    unfolding d list_all_iff by (auto dest: set_takeWhileD)
  moreover have "list_all is_space (takeWhile is_space (drop (6 + k) name))"
    unfolding list_all_iff by (auto dest: set_takeWhileD)
  ultimately show ?thesis
    unfolding funnel_occurrence_def funnel_token_def using a n by blast
qed

lemma find_funnel_first:
  "find_funnel s = Some d \<Longrightarrow>
     \<exists>k\<le>length s. match_here (drop k s) = Some d \<and> (\<forall>j<k. match_here (drop j s) = None)"
proof (induction s)
  case Nil
  then show ?case by (auto split: option.splits)
next
  case (Cons x xs)
  show ?case
  proof (cases "match_here (x # xs)")
    case (Some d')
    with Cons.prems have "match_here (drop 0 (x # xs)) = Some d" by simp
    then show ?thesis by blast
  next
    case None
    with Cons.prems have "find_funnel xs = Some d" by simp
    then obtain k where k: "k \<le> length xs" "match_here (drop k xs) = Some d"
      "\<forall>j<k. match_here (drop j xs) = None"
      using Cons.IH by blast
    have "\<forall>j<Suc k. match_here (drop j (x # xs)) = None"
    proof (intro allI impI)
      fix j assume "j < Suc k"
      then show "match_here (drop j (x # xs)) = None"
        using None k(3) by (cases j) auto
    qed
    with k(1,2) show ?thesis
      by (intro exI [of _ "Suc k"]) simp
  qed
qed

lemma find_funnel_none: "find_funnel s = None \<Longrightarrow> match_here (drop k s) = None"
proof (induction s arbitrary: k)
  case Nil
  then show ?case by (auto split: option.splits)
next
  case (Cons x xs)
  then have a: "match_here (x # xs) = None" and b: "find_funnel xs = None"
    by (auto split: option.splits)
  show ?case
    using a Cons.IH [OF b] by (cases k) auto
qed

text \<open>A funnel id never names a member of \<^verbatim>\<open>Object.prototype\<close>.\<close>

lemma classify_shape:
  "classify n = js ''unknown'' \<or> (classify n \<noteq> [] \<and> list_all is_digit (classify n))"
proof (cases "find_funnel n")
  case None
  then show ?thesis by (simp add: classify_find)
next
  case (Some d)
  then obtain k where "match_here (drop k n) = Some d"
    using find_funnel_first by blast
  then have "d \<noteq> [] \<and> list_all is_digit d"
    using match_here_occurrence [of k n d] by (simp add: funnel_occurrence_def)
  then show ?thesis using Some by (simp add: classify_find)
qed

lemma classify_not_inherited: "classify n \<notin> set object_prototype_keys"
proof -
  have "js ''unknown'' \<notin> set object_prototype_keys"
    by code_simp
  moreover have "\<forall>k\<in>set object_prototype_keys. \<not> list_all is_digit k"
    by code_simp
  ultimately show ?thesis
    using classify_shape [of n] by auto
qed

text \<open>
  Claim C3. A name without an occurrence of the rule is classified as \<^verbatim>\<open>unknown\<close>. A name
  with one is classified by the digits of an occurrence: the leftmost one, with the whole
  run of digits. The three names of the specification are classified as it says.
\<close>

theorem classification_by_pattern:
  "((\<forall>pre tok ws ds post. \<not> funnel_occurrence name pre tok ws ds post)
      \<longrightarrow> classify name = js ''unknown'')
   \<and> (funnel_occurrence name pre tok ws ds post \<longrightarrow>
        (\<exists>pre' tok' ws' ds' post'.
           funnel_occurrence name pre' tok' ws' ds' post' \<and> classify name = ds'
           \<and> length pre' \<le> length pre \<and> (post' = [] \<or> \<not> is_digit (hd post'))))
   \<and> classify (js ''Spring Funnel 3 Retargeting'') = js ''3''
   \<and> classify (js ''Brand Awareness'') = js ''unknown''
   \<and> classify (js ''FUNNEL7'') = js ''7''"
proof (intro conjI impI)
  assume no: "\<forall>pre tok ws ds post. \<not> funnel_occurrence name pre tok ws ds post"
  show "classify name = js ''unknown''"
  proof (cases "find_funnel name")
    case None
    then show ?thesis by (simp add: classify_find)
  next
    case (Some d)
    then obtain k where "match_here (drop k name) = Some d"
      using find_funnel_first by blast
    then show ?thesis
      using match_here_occurrence no by blast
  qed
next
  assume occ: "funnel_occurrence name pre tok ws ds post"
  then obtain d0 where d0: "match_here (drop (length pre) name) = Some d0"
    using occurrence_match_here by blast
  then obtain d where f: "find_funnel name = Some d"
    using find_funnel_none [of name "length pre"] by (cases "find_funnel name") auto
  then obtain k where k: "k \<le> length name" "match_here (drop k name) = Some d"
    "\<forall>j<k. match_here (drop j name) = None"
    using find_funnel_first by blast
  have "k \<le> length pre"
  proof (rule ccontr)
    assume "\<not> k \<le> length pre"
    then have "match_here (drop (length pre) name) = None" using k(3) by simp
    with d0 show False by simp
  qed
  with k(1) have "length (take k name) \<le> length pre" by simp
  moreover have "classify name = d" using f by (simp add: classify_find)
  moreover have "dropWhile is_digit (dropWhile is_space (drop (6 + k) name)) = []
      \<or> \<not> is_digit (hd (dropWhile is_digit (dropWhile is_space (drop (6 + k) name))))"
    using hd_dropWhile by blast
  ultimately show "\<exists>pre' tok' ws' ds' post'.
           funnel_occurrence name pre' tok' ws' ds' post' \<and> classify name = ds'
           \<and> length pre' \<le> length pre \<and> (post' = [] \<or> \<not> is_digit (hd post'))"
    using match_here_occurrence [OF k(2)] by blast
next
  show "classify (js ''Spring Funnel 3 Retargeting'') = js ''3''" by code_simp
  show "classify (js ''Brand Awareness'') = js ''unknown''" by code_simp
  show "classify (js ''FUNNEL7'') = js ''7''" by code_simp
qed

theorem classification_by_pattern_witness:
  "funnel_occurrence (js ''FUNNEL7'') [] (js ''FUNNEL'') [] (js ''7'') []
   \<and> (\<exists>pre' tok' ws' ds' post'.
         funnel_occurrence (js ''FUNNEL7'') pre' tok' ws' ds' post'
         \<and> classify (js ''FUNNEL7'') = ds' \<and> length pre' \<le> length ([] :: jsstring))
   \<and> classify (js ''FUNNEL7'') = js ''7''"
proof -
  have o: "funnel_occurrence (js ''FUNNEL7'') [] (js ''FUNNEL'') [] (js ''7'') []"
    by code_simp
  show ?thesis
    using o classification_by_pattern [of "js ''FUNNEL7''" "[]" "js ''FUNNEL''" "[]" "js ''7''" "[]"]
    by blast
qed

subsection \<open>Numbers and parsers\<close>

lemma round_half_even_of_int: "round_half_even (of_int k) = k"
  by (simp add: round_half_even_def)

lemma ilog2_lower:
  assumes "0 < q"
  shows "2 powi (ilog2 q) \<le> q"
proof -
  obtain a b where ab: "quotient_of q = (a, b)" by (cases "quotient_of q")
  then have q: "q = of_int a / of_int b" and b: "0 < b"
    by (simp_all add: quotient_of_div quotient_of_denom_pos)
  with assms have a: "0 < a"
    by (simp add: zero_less_divide_iff)
  define e0 where "e0 = bitlen a - bitlen b"
  show ?thesis
  proof (cases "2 powi e0 \<le> q")
    case True
    then show ?thesis by (simp add: ilog2_def ab e0_def Let_def)
  next
    case False
    then have e: "ilog2 q = e0 - 1" by (simp add: ilog2_def ab e0_def Let_def)
    have la: "0 < bitlen a" and lb: "0 < bitlen b"
      using a b bitlen_eq_zero_iff [of a] bitlen_eq_zero_iff [of b]
        bitlen_nonneg [of a] bitlen_nonneg [of b] by linarith+
    have "(2::int) ^ nat (bitlen a - 1) \<le> a" and "b < 2 ^ nat (bitlen b)"
      using bitlen_bounds [OF a] bitlen_bounds [OF b] by simp_all
    then have 1: "(2::rat) ^ nat (bitlen a - 1) \<le> of_int a"
      and 2: "of_int b \<le> (2::rat) ^ nat (bitlen b)"
      by (metis of_int_le_iff of_int_numeral of_int_power, metis less_imp_le of_int_le_iff of_int_numeral of_int_power)
    have "(2::rat) powi (e0 - 1) = 2 powi (bitlen a - 1) / 2 powi (bitlen b)"
      unfolding e0_def
      by (metis (no_types, opaque_lifting) add_diff_cancel_left' diff_diff_eq2 power_int_diff
          zero_neq_numeral diff_add_cancel add.commute)
    also have "\<dots> = 2 ^ nat (bitlen a - 1) / 2 ^ nat (bitlen b)"
      using la lb by (simp add: power_int_def)
    also have "\<dots> \<le> of_int a / of_int b"
      using 1 2 a b by (intro frac_le) simp_all
    finally show ?thesis using e q by simp
  qed
qed

lemma ilog2_upper:
  assumes "0 < q"
  shows "q < 2 powi (ilog2 q + 1)"
proof -
  obtain a b where ab: "quotient_of q = (a, b)" by (cases "quotient_of q")
  then have q: "q = of_int a / of_int b" and b: "0 < b"
    by (simp_all add: quotient_of_div quotient_of_denom_pos)
  with assms have a: "0 < a"
    by (simp add: zero_less_divide_iff)
  define e0 where "e0 = bitlen a - bitlen b"
  show ?thesis
  proof (cases "2 powi e0 \<le> q")
    case True
    then have e: "ilog2 q = e0" by (simp add: ilog2_def ab e0_def Let_def)
    have la: "0 < bitlen a" and lb: "0 < bitlen b"
      using a b bitlen_eq_zero_iff [of a] bitlen_eq_zero_iff [of b]
        bitlen_nonneg [of a] bitlen_nonneg [of b] by linarith+
    have "a < 2 ^ nat (bitlen a)" and "(2::int) ^ nat (bitlen b - 1) \<le> b"
      using bitlen_bounds [OF a] bitlen_bounds [OF b] by simp_all
    then have 1: "of_int a < (2::rat) ^ nat (bitlen a)"
      and 2: "(2::rat) ^ nat (bitlen b - 1) \<le> of_int b"
      by (metis of_int_less_iff of_int_numeral of_int_power,
          metis of_int_le_iff of_int_numeral of_int_power)
    have "of_int a / of_int b < (2::rat) ^ nat (bitlen a) / 2 ^ nat (bitlen b - 1)"
      using 1 2 a b by (intro frac_less) simp_all
    also have "\<dots> = 2 powi (bitlen a) / 2 powi (bitlen b - 1)"
      using la lb by (simp add: power_int_def)
    also have "\<dots> = 2 powi (bitlen a - (bitlen b - 1))"
      by (simp add: power_int_diff)
    also have "bitlen a - (bitlen b - 1) = e0 + 1"
      by (simp add: e0_def)
    finally show ?thesis using e q by simp
  next
    case False
    then have e: "ilog2 q = e0 - 1" by (simp add: ilog2_def ab e0_def Let_def)
    with False show ?thesis by simp
  qed
qed

lemma ilog2_le_53:
  assumes "0 < q" "q \<le> 2 ^ 53"
  shows "ilog2 q \<le> 53"
proof -
  have "(2::rat) powi (ilog2 q) \<le> 2 powi 53"
    using ilog2_lower [OF assms(1)] assms(2) by simp
  then show ?thesis
    by (rule power_int_le_imp_le_exp [rotated]) simp_all
qed

lemma to_double_exact:
  assumes "0 \<le> n" "n \<le> 2 ^ 53"
  shows "to_double (of_int n) = Fin (of_int n)"
proof (cases "n = 0")
  case True
  then show ?thesis by (simp add: to_double_def)
next
  case False
  with assms have pos: "0 < n" by simp
  define q :: rat where "q = of_int n"
  have q: "0 < q" "q \<le> 2 ^ 53"
    using pos assms(2) unfolding q_def
    by (simp, metis of_int_le_iff of_int_numeral of_int_power)
  define u where "u = max (ilog2 q - 52) (- 1074)"
  have e: "ilog2 q \<le> 53" using q by (rule ilog2_le_53)
  have "\<exists>k. q / 2 powi u = of_int k"
  proof (cases "u \<le> 0")
    case True
    then have "(2::rat) powi u = 1 / 2 ^ nat (- u)"
      by (metis power_int_minus_divide power_int_of_nat add.inverse_inverse int_nat_eq
          neg_0_le_iff_le)
    then have "q / 2 powi u = of_int (n * 2 ^ nat (- u))"
      by (simp add: q_def)
    then show ?thesis by blast
  next
    case False
    with e have u1: "u = 1" and e53: "ilog2 q = 53"
      by (auto simp: u_def max_def split: if_splits)
    have "(2::rat) powi 53 \<le> q"
      using ilog2_lower [OF q(1)] e53 by simp
    with q(2) have "q = 2 ^ 53" by simp
    then have "q / 2 powi u = of_int (2 ^ 52)"
      using u1 by simp
    then show ?thesis by blast
  qed
  then obtain k where k: "q / 2 powi u = of_int k" by blast
  have nz: "(2::rat) powi u \<noteq> 0" by simp
  have r: "of_int (round_half_even (q / 2 powi u)) * 2 powi u = q"
    unfolding k round_half_even_of_int using k nz
    by (metis nonzero_divide_eq_eq)
  show ?thesis
    using q(1) e r unfolding q_def [symmetric]
    by (simp add: to_double_def Let_def u_def [symmetric])
qed

lemma digit_not_special:
  assumes "is_digit c"
  shows "c \<noteq> 45" "c \<noteq> 43" "c \<noteq> 120" "c \<noteq> 88" "c \<noteq> 73" "radix_digit 10 c"
  using assms unfolding is_digit_def radix_digit_def digit_val_def
  by (auto simp: word_le_def)

lemma digit_val_nonneg: "0 \<le> digit_val c"
  unfolding digit_val_def by (auto simp: word_le_def)

lemma foldl_digits_nonneg: "0 \<le> a \<Longrightarrow> 0 \<le> foldl (\<lambda>v c. v * 10 + digit_val c) a s"
proof (induction s arbitrary: a)
  case Nil
  then show ?case by simp
next
  case (Cons c s)
  have "0 \<le> a * 10 + digit_val c"
    using Cons.prems digit_val_nonneg [of c] by simp
  then show ?case using Cons.IH by simp
qed

lemma digits_value_nonneg: "0 \<le> digits_value 10 s"
  unfolding digits_value_def by (rule foldl_digits_nonneg) simp

lemma digits_no_hex:
  assumes "s \<noteq> []" "list_all is_digit s"
  shows "take 2 s \<noteq> js ''0x'' \<and> take 2 s \<noteq> js ''0X''"
proof -
  obtain x xs where s: "s = x # xs" using assms(1) by (cases s) auto
  show ?thesis
  proof (cases xs)
    case Nil
    show ?thesis
      unfolding s Nil by (simp add: js_def)
  next
    case (Cons y ys)
    with assms(2) s have "is_digit y" by simp
    then have "y \<noteq> 120" "y \<noteq> 88" by (simp_all add: digit_not_special)
    then show ?thesis
      unfolding s Cons by (simp add: js_def)
  qed
qed

lemma parseInt_digits:
  assumes "s \<noteq> []" "list_all is_digit s"
  shows "parseInt s = to_double (of_int (digits_value 10 s))"
proof -
  obtain x xs where s: "s = x # xs" using assms(1) by (cases s) auto
  with assms(2) have x: "is_digit x" by simp
  have 1: "dropWhile is_space s = s"
    using digit_not_space [OF x] s by simp
  have 2: "strip_sign s = (1, s)"
    using digit_not_special(1,2) [OF x] s by (simp add: strip_sign_def)
  have 3: "takeWhile (radix_digit 10) s = s"
    using assms(2) by (auto simp: takeWhile_eq_all_conv list_all_iff digit_not_special(6))
  show ?thesis
    using assms(1) digits_no_hex [OF assms]
    by (simp add: parseInt_def 1 2 3 Let_def)
qed

lemma parseFloat_digits:
  assumes "s \<noteq> []" "list_all is_digit s"
  shows "parseFloat s = to_double (of_int (digits_value 10 s))"
proof -
  obtain x xs where s: "s = x # xs" using assms(1) by (cases s) auto
  with assms(2) have x: "is_digit x" by simp
  have 1: "dropWhile is_space s = s"
    using digit_not_space [OF x] s by simp
  have 2: "strip_sign s = (1, s)"
    using digit_not_special(1,2) [OF x] s by (simp add: strip_sign_def)
  have 3: "takeWhile is_digit s = s" "dropWhile is_digit s = []"
    using assms(2) by (auto simp: takeWhile_eq_all_conv list_all_iff)
  have 4: "take 8 s \<noteq> js ''Infinity''"
    using digit_not_special(5) [OF x] unfolding s by (simp add: js_def)
  have 5: "digits_value 10 [] = 0" by (simp add: digits_value_def)
  show ?thesis
    using assms(1)
    by (simp add: parseFloat_def 1 2 3 4 5 Let_def exponent_part_def)
qed

lemma zero_digits: "js ''0'' \<noteq> []" "list_all is_digit (js ''0'')" "digits_value 10 (js ''0'') = 0"
  by (simp_all add: js_def is_digit_def digits_value_def digit_val_def)

lemma parse_count_field:
  assumes "count_field f" "count_value f \<le> 2 ^ 53"
  shows "parseInt (or_zero f) = Fin (of_int (count_value f))"
    and "parseFloat (or_zero f) = Fin (of_int (count_value f))"
proof -
  have d: "or_zero f \<noteq> []" "list_all is_digit (or_zero f)"
    "digits_value 10 (or_zero f) = count_value f"
    using assms(1) zero_digits
    by (auto simp: or_zero_def count_field_def count_value_def truthy_def
        split: option.splits field.splits if_splits)
  have "to_double (of_int (digits_value 10 (or_zero f))) = Fin (of_int (count_value f))"
    unfolding d(3) using assms(2) digits_value_nonneg [of "or_zero f"] d(3)
    by (intro to_double_exact) simp_all
  then show "parseInt (or_zero f) = Fin (of_int (count_value f))"
    and "parseFloat (or_zero f) = Fin (of_int (count_value f))"
    using parseInt_digits [OF d(1,2)] parseFloat_digits [OF d(1,2)] by simp_all
qed

lemma count_value_nonneg: "0 \<le> count_value f"
  unfolding count_value_def using digits_value_nonneg by (simp split: option.splits)

lemma absent_is_zero:
  "parseInt (or_zero f) = Fin 0 \<and> parseFloat (or_zero f) = Fin 0" if "truthy f = None"
proof -
  have "count_field f" "count_value f = 0"
    using that by (simp_all add: count_field_def count_value_def)
  then show ?thesis
    using parse_count_field [of f] by simp
qed

lemma foldl_js_add_exact:
  assumes "\<forall>x\<in>set xs. 0 \<le> x" "0 \<le> a" "a + sum_list xs \<le> 2 ^ 53"
  shows "foldl js_add (Fin (of_int a)) (map (\<lambda>x. Fin (of_int x)) xs)
           = Fin (of_int (a + sum_list xs))"
  using assms
proof (induction xs arbitrary: a)
  case Nil
  then show ?case by simp
next
  case (Cons x xs)
  have s: "0 \<le> sum_list xs"
    using Cons.prems(1) by (simp add: sum_list_nonneg)
  have x: "0 \<le> x" using Cons.prems(1) by simp
  have "js_add (Fin (of_int a)) (Fin (of_int x)) = to_double (of_int (a + x))"
    by simp
  also have "\<dots> = Fin (of_int (a + x))"
    using Cons.prems(2,3) s x by (intro to_double_exact) simp_all
  finally have "js_add (Fin (of_int a)) (Fin (of_int x)) = Fin (of_int (a + x))" .
  moreover have "foldl js_add (Fin (of_int (a + x))) (map (\<lambda>x. Fin (of_int x)) xs)
           = Fin (of_int (a + x + sum_list xs))"
    using Cons.prems x by (intro Cons.IH) simp_all
  ultimately show ?case by (simp add: add.assoc)
qed

lemma elem_le_sum_list:
  fixes xs :: "int list"
  shows "\<forall>y\<in>set xs. 0 \<le> y \<Longrightarrow> x \<in> set xs \<Longrightarrow> x \<le> sum_list xs"
proof (induction xs)
  case Nil
  then show ?case by simp
next
  case (Cons y ys)
  have "0 \<le> sum_list ys" using Cons.prems(1) by (simp add: sum_list_nonneg)
  with Cons show ?case by auto
qed

lemma exact_total:
  assumes "exact_records fld grp"
  shows "foldl js_add (Fin 0) (map (\<lambda>i. parseInt (or_zero (fld i))) grp)
           = Fin (of_int (field_total fld grp))"
    and "foldl js_add (Fin 0) (map (\<lambda>i. parseFloat (or_zero (fld i))) grp)
           = Fin (of_int (field_total fld grp))"
proof -
  let ?vs = "map (\<lambda>i. count_value (fld i)) grp"
  from assms have c: "\<forall>i\<in>set grp. count_field (fld i)" and t: "sum_list ?vs \<le> 2 ^ 53"
    by (simp_all add: exact_records_def field_total_def list_all_iff)
  have nn: "\<forall>y\<in>set ?vs. 0 \<le> y" by (auto simp: count_value_nonneg)
  have le: "count_value (fld i) \<le> 2 ^ 53" if "i \<in> set grp" for i
  proof -
    have "count_value (fld i) \<in> set ?vs" using that by simp
    with nn have "count_value (fld i) \<le> sum_list ?vs" by (rule elem_le_sum_list)
    with t show ?thesis by simp
  qed
  have pi: "map (\<lambda>i. parseInt (or_zero (fld i))) grp = map (\<lambda>x. Fin (of_int x)) ?vs"
    using c le by (simp add: parse_count_field)
  have pf: "map (\<lambda>i. parseFloat (or_zero (fld i))) grp = map (\<lambda>x. Fin (of_int x)) ?vs"
    using c le by (simp add: parse_count_field)
  have "foldl js_add (Fin (of_int 0)) (map (\<lambda>x. Fin (of_int x)) ?vs)
          = Fin (of_int (0 + sum_list ?vs))"
    using nn t by (intro foldl_js_add_exact) simp_all
  then show "foldl js_add (Fin 0) (map (\<lambda>i. parseInt (or_zero (fld i))) grp)
           = Fin (of_int (field_total fld grp))"
    and "foldl js_add (Fin 0) (map (\<lambda>i. parseFloat (or_zero (fld i))) grp)
           = Fin (of_int (field_total fld grp))"
    unfolding pi pf field_total_def by simp_all
qed

lemma exact_records_mset:
  assumes "mset grp' = mset grp"
  shows "exact_records fld grp' = exact_records fld grp" "field_total fld grp' = field_total fld grp"
proof -
  have "mset (map (\<lambda>i. count_value (fld i)) grp') = mset (map (\<lambda>i. count_value (fld i)) grp)"
    using assms by simp
  then show t: "field_total fld grp' = field_total fld grp"
    unfolding field_total_def by (metis sum_mset_sum_list)
  have "set grp' = set grp" using assms by (rule mset_eq_setD)
  then show "exact_records fld grp' = exact_records fld grp"
    using t by (simp add: exact_records_def list_all_iff)
qed

subsection \<open>The fold over the insight records\<close>

lemma fold_insight_lookup:
  assumes "fold_insight w m fd i = Inr fd'" and "distinct (map fst fd)"
  shows "\<exists>k0. funnel_of m i = Some k0 \<and> distinct (map fst fd')
           \<and> fst ` set fd' = insert k0 (fst ` set fd)
           \<and> (\<forall>k. map_of fd' k = (if k = k0 then Some (fold_record m (start_of w fd k0) i)
                                    else map_of fd k))"
proof -
  obtain n where n: "resolve_name m i = Inr n"
    using assms(1) by (cases "resolve_name m i") (simp_all add: fold_insight_def)
  define k0 where "k0 = classify n"
  define fd1 where "fd1 = (if map_of fd k0 = None then fd @ [(k0, new_funnel w k0)] else fd)"
  have fd': "fd' = AList.map_entry k0 (add_insight n i) fd1"
    using assms(1) n by (auto simp: fold_insight_def fd1_def k0_def Let_def)
  have d1: "distinct (map fst fd1)"
    using assms(2) by (auto simp: fd1_def map_of_eq_None_iff)
  have k1: "fst ` set fd1 = insert k0 (fst ` set fd)"
    by (auto simp: fd1_def map_of_eq_None_iff intro: rev_image_eqI)
  have m1: "map_of fd1 k = (if k = k0 then Some (start_of w fd k0) else map_of fd k)" for k
  proof (cases "map_of fd k0")
    case None
    then show ?thesis
      by (cases "map_of fd k") (auto simp: fd1_def start_of_def map_add_def)
  next
    case (Some f)
    then show ?thesis
      by (simp add: fd1_def start_of_def)
  qed
  have "funnel_of m i = Some k0"
    using n by (simp add: funnel_of_def k0_def)
  moreover have "distinct (map fst fd')"
    unfolding fd' using d1 by (rule distinct_map_entry)
  moreover have "fst ` set fd' = insert k0 (fst ` set fd)"
    unfolding fd' using k1 by (simp add: dom_map_entry)
  moreover have "map_of fd' k = (if k = k0 then Some (fold_record m (start_of w fd k0) i)
                                    else map_of fd k)" for k
    unfolding fd' using n by (simp add: map_of_map_entry m1 fold_record_def name_of_def)
  ultimately show ?thesis by blast
qed

lemma aggregate_lookup:
  assumes "aggregate w m ins fd = Inr fd'" and "distinct (map fst fd)"
  shows "distinct (map fst fd')
         \<and> (\<forall>i\<in>set ins. funnel_of m i \<noteq> None)
         \<and> (\<forall>k. map_of fd' k =
               (if records_of m k ins = [] then map_of fd k
                else Some (foldl (fold_record m) (start_of w fd k) (records_of m k ins))))"
  using assms
proof (induction ins arbitrary: fd)
  case Nil
  then show ?case by (simp add: records_of_def)
next
  case (Cons i ins)
  from Cons.prems(1) obtain fd1 where s: "fold_insight w m fd i = Inr fd1"
    and r: "aggregate w m ins fd1 = Inr fd'"
    by (cases "fold_insight w m fd i") simp_all
  from fold_insight_lookup [OF s Cons.prems(2)] obtain k0 where
    k0: "funnel_of m i = Some k0" and d1: "distinct (map fst fd1)"
    and m1: "\<And>k. map_of fd1 k = (if k = k0 then Some (fold_record m (start_of w fd k0) i)
                                    else map_of fd k)"
    by blast
  from Cons.IH [OF r d1] have d': "distinct (map fst fd')"
    and ok: "\<forall>i\<in>set ins. funnel_of m i \<noteq> None"
    and m': "\<And>k. map_of fd' k =
               (if records_of m k ins = [] then map_of fd1 k
                else Some (foldl (fold_record m) (start_of w fd1 k) (records_of m k ins)))"
    by blast+
  have "map_of fd' k =
               (if records_of m k (i # ins) = [] then map_of fd k
                else Some (foldl (fold_record m) (start_of w fd k) (records_of m k (i # ins))))"
    for k
  proof (cases "k = k0")
    case True
    have "start_of w fd1 k0 = fold_record m (start_of w fd k0) i"
      by (simp add: start_of_def m1)
    then show ?thesis
      using True k0 m' [of k0] m1 [of k0] by (simp add: records_of_def)
  next
    case False
    have "start_of w fd1 k = start_of w fd k"
      using False by (simp add: start_of_def m1)
    then show ?thesis
      using False k0 m' [of k] m1 [of k] by (simp add: records_of_def)
  qed
  with d' ok k0 show ?case by simp
qed

lemma aggregate_succeeds:
  "\<forall>i\<in>set ins. funnel_of m i \<noteq> None \<Longrightarrow> \<exists>fd'. aggregate w m ins fd = Inr fd'"
proof (induction ins arbitrary: fd)
  case Nil
  then show ?case by simp
next
  case (Cons i ins)
  then obtain n where "resolve_name m i = Inr n"
    by (cases "resolve_name m i") (auto simp: funnel_of_def)
  then obtain fd1 where "fold_insight w m fd i = Inr fd1"
    by (simp add: fold_insight_def Let_def)
  with Cons show ?case by simp
qed

lemma foldl_fold_record_totals:
  "amount_spent (foldl (fold_record m) f xs)
     = foldl js_add (amount_spent f) (map (\<lambda>i. parseFloat (or_zero (i_spend i))) xs)"
  "impressions (foldl (fold_record m) f xs)
     = foldl js_add (impressions f) (map (\<lambda>i. parseInt (or_zero (i_impressions i))) xs)"
  "reach (foldl (fold_record m) f xs)
     = foldl js_add (reach f) (map (\<lambda>i. parseInt (or_zero (i_reach i))) xs)"
  "ads_link_clicks (foldl (fold_record m) f xs)
     = foldl js_add (ads_link_clicks f) (map (\<lambda>i. parseInt (or_zero (i_clicks i))) xs)"
  by (induction xs arbitrary: f; simp add: fold_record_def add_insight_def)+

lemma foldl_fold_record_key:
  "funnel_id (foldl (fold_record m) f xs) = funnel_id f"
  "start_date (foldl (fold_record m) f xs) = start_date f"
  "end_date (foldl (fold_record m) f xs) = end_date f"
  by (induction xs arbitrary: f; simp add: fold_record_def add_insight_def)+

lemma finalize_keeps:
  "amount_spent (finalize g) = amount_spent g" "impressions (finalize g) = impressions g"
  "reach (finalize g) = reach g" "ads_link_clicks (finalize g) = ads_link_clicks g"
  "funnel_id (finalize g) = funnel_id g" "start_date (finalize g) = start_date g"
  "end_date (finalize g) = end_date g"
  by (simp_all add: finalize_def Let_def)

lemma object_values_perm: "\<exists>qs. object_values ps = map snd qs \<and> mset qs = mset ps"
proof -
  let ?P = "\<lambda>p. is_array_index (fst p)"
  let ?qs = "sort_key (\<lambda>p. digits_value 10 (fst p)) (filter ?P ps) @ filter (\<lambda>p. \<not> ?P p) ps"
  have "mset ?qs = mset ps" by simp
  moreover have "object_values ps = map snd ?qs" by (simp add: object_values_def)
  ultimately show ?thesis by blast
qed

lemma accumulated_id: "funnel_id (accumulated w m k ins) = k"
  by (simp add: accumulated_def finalize_keeps foldl_fold_record_key new_funnel_def)

lemma accumulated_key: "funnel_key (accumulated w m k ins) = (fst w, snd w, k)"
  by (simp add: accumulated_def funnel_key_def finalize_keeps foldl_fold_record_key new_funnel_def)

lemma fetch_body_funnels:
  assumes "fetchFacebookAdData_body w (Data cs) (Data ins) = Inr funnels"
  shows "\<forall>i\<in>set ins. funnel_of (build_campaign_map cs) i \<noteq> None"
    and "f \<in> set funnels \<longleftrightarrow>
           (\<exists>k. records_of (build_campaign_map cs) k ins \<noteq> []
                \<and> f = accumulated w (build_campaign_map cs) k ins)"
    and "distinct (map funnel_id funnels)"
proof -
  let ?m = "build_campaign_map cs"
  from assms obtain fd where agg: "aggregate w ?m ins [] = Inr fd"
    and fs: "funnels = map finalize (object_values fd)"
    by (auto simp: fetchFacebookAdData_body_def split: sum.splits)
  from aggregate_lookup [OF agg] have d: "distinct (map fst fd)"
    and ok: "\<forall>i\<in>set ins. funnel_of ?m i \<noteq> None"
    and look: "\<And>k. map_of fd k =
               (if records_of ?m k ins = [] then None
                else Some (foldl (fold_record ?m) (new_funnel w k) (records_of ?m k ins)))"
    by (simp_all add: start_of_def)
  show "\<forall>i\<in>set ins. funnel_of ?m i \<noteq> None" by (rule ok)
  have entry: "(k, g) \<in> set fd \<longleftrightarrow> records_of ?m k ins \<noteq> []
        \<and> g = foldl (fold_record ?m) (new_funnel w k) (records_of ?m k ins)" for k g
  proof -
    have "(k, g) \<in> set fd \<longleftrightarrow> map_of fd k = Some g"
      using d by simp
    then show ?thesis
      unfolding look by auto
  qed
  show "f \<in> set funnels \<longleftrightarrow>
           (\<exists>k. records_of ?m k ins \<noteq> [] \<and> f = accumulated w ?m k ins)"
  proof
    assume "f \<in> set funnels"
    then obtain p where p: "p \<in> set fd" "f = finalize (snd p)"
      unfolding fs by (auto simp: object_values_set)
    from p(1) have "(fst p, snd p) \<in> set fd" by simp
    then have "records_of ?m (fst p) ins \<noteq> []
        \<and> snd p = foldl (fold_record ?m) (new_funnel w (fst p)) (records_of ?m (fst p) ins)"
      by (rule entry [THEN iffD1])
    then have "records_of ?m (fst p) ins \<noteq> [] \<and> f = accumulated w ?m (fst p) ins"
      using p(2) by (simp add: accumulated_def)
    then show "\<exists>k. records_of ?m k ins \<noteq> [] \<and> f = accumulated w ?m k ins" ..
  next
    assume "\<exists>k. records_of ?m k ins \<noteq> [] \<and> f = accumulated w ?m k ins"
    then obtain k where k: "records_of ?m k ins \<noteq> []" "f = accumulated w ?m k ins" by blast
    from k(1) have "(k, foldl (fold_record ?m) (new_funnel w k) (records_of ?m k ins)) \<in> set fd"
      by (intro entry [THEN iffD2]) simp
    then have "snd (k, foldl (fold_record ?m) (new_funnel w k) (records_of ?m k ins))
                 \<in> set (object_values fd)"
      unfolding object_values_set by (rule imageI)
    then show "f \<in> set funnels"
      unfolding fs k(2) accumulated_def by simp
  qed
  obtain qs where qs: "object_values fd = map snd qs" "mset qs = mset fd"
    using object_values_perm by blast
  have sq: "set qs = set fd" using qs(2) by (rule mset_eq_setD)
  have "funnel_id (finalize (snd p)) = fst p" if "p \<in> set qs" for p
  proof -
    have "(fst p, snd p) \<in> set fd" using that sq by simp
    then have "records_of ?m (fst p) ins \<noteq> []
        \<and> snd p = foldl (fold_record ?m) (new_funnel w (fst p)) (records_of ?m (fst p) ins)"
      by (rule entry [THEN iffD1])
    then have "funnel_id (snd p) = fst p"
      by (simp add: foldl_fold_record_key new_funnel_def)
    then show ?thesis
      by (simp add: finalize_keeps)
  qed
  then have "map funnel_id funnels = map fst qs"
    unfolding fs qs(1) by simp
  moreover have "mset (map fst qs) = mset (map fst fd)" using qs(2) by simp
  then have "distinct (map fst qs) = distinct (map fst fd)"
    by (rule mset_eq_imp_distinct_iff)
  ultimately show "distinct (map funnel_id funnels)" using d by simp
qed

lemma fetch_body_succeeds:
  assumes "\<forall>i\<in>set ins. funnel_of (build_campaign_map cs) i \<noteq> None"
  shows "\<exists>funnels. fetchFacebookAdData_body w (Data cs) (Data ins) = Inr funnels"
proof -
  obtain fd where "aggregate w (build_campaign_map cs) ins [] = Inr fd"
    using aggregate_succeeds [OF assms] by blast
  then show ?thesis by (simp add: fetchFacebookAdData_body_def)
qed

lemma match_here_verbatim:
  assumes "ds \<noteq> []" "list_all is_digit ds"
  shows "match_here (js ''Funnel '' @ ds) = Some ds"
proof -
  obtain x xs where ds: "ds = x # xs" using assms(1) by (cases ds) auto
  with assms(2) have x: "is_digit x" by simp
  have t: "takeWhile is_digit ds = ds"
    using assms(2) by (simp add: takeWhile_eq_all_conv list_all_iff)
  have "map canonicalize (take 6 (js ''Funnel '' @ ds)) = js ''FUNNEL''"
    by (simp add: js_def canonicalize_def)
  moreover have "dropWhile is_space (drop 6 (js ''Funnel '' @ ds)) = ds"
  proof -
    have "drop 6 (js ''Funnel '' @ ds) = 32 # ds" by (simp add: js_def)
    moreover have "is_space 32" by (simp add: is_space_def)
    ultimately show ?thesis
      using digit_not_space [OF x] ds by simp
  qed
  ultimately show ?thesis
    using x t ds by (simp add: match_here_def)
qed

lemma classify_verbatim:
  assumes "ds \<noteq> []" "list_all is_digit ds"
  shows "classify (js ''Funnel '' @ ds) = ds"
proof -
  have "find_funnel (js ''Funnel '' @ ds) = Some ds"
    using match_here_verbatim [OF assms] by (subst find_funnel.simps) simp
  then show ?thesis by (simp add: classify_find)
qed

text \<open>
  Claim C9. The funnel id is the digit run as it stands in the name: a name
  \<^verbatim>\<open>Funnel\<close>, space, digits is classified by exactly these digits, leading zeros
  included, so \<^verbatim>\<open>Funnel 007\<close> gives \<^verbatim>\<open>007\<close> and \<^verbatim>\<open>Funnel 7\<close> gives \<^verbatim>\<open>7\<close>. Two records of
  one fetch whose funnel ids differ are folded into two different accumulators with
  different keys, and no two accumulators of a fetch share a key.
\<close>

theorem distinct_ids_distinct_funnels:
  assumes "fetchFacebookAdData_body w (Data cs) (Data ins) = Inr funnels"
    and "a \<in> set ins" and "b \<in> set ins"
    and "funnel_of (build_campaign_map cs) a = Some ka"
    and "funnel_of (build_campaign_map cs) b = Some kb"
    and "ka \<noteq> kb"
  shows "(\<exists>fa fb. fa \<in> set funnels \<and> fb \<in> set funnels \<and> funnel_id fa = ka
            \<and> funnel_id fb = kb \<and> fa \<noteq> fb \<and> funnel_key fa \<noteq> funnel_key fb)
         \<and> distinct (map funnel_key funnels)
         \<and> classify (js ''Funnel 007'') = js ''007''
         \<and> classify (js ''Funnel 7'') = js ''7''
         \<and> (\<forall>ds. ds \<noteq> [] \<and> list_all is_digit ds \<longrightarrow> classify (js ''Funnel '' @ ds) = ds)"
proof -
  let ?m = "build_campaign_map cs"
  have ra: "records_of ?m ka ins \<noteq> []" and rb: "records_of ?m kb ins \<noteq> []"
    using assms(2-5) by (auto simp: records_of_def filter_empty_conv)
  have "accumulated w ?m ka ins \<in> set funnels" "accumulated w ?m kb ins \<in> set funnels"
    using fetch_body_funnels(2) [OF assms(1)] ra rb by blast+
  moreover have "accumulated w ?m ka ins \<noteq> accumulated w ?m kb ins"
    using assms(6) accumulated_id by metis
  moreover have "funnel_key (accumulated w ?m ka ins) \<noteq> funnel_key (accumulated w ?m kb ins)"
    using assms(6) by (simp add: accumulated_key)
  ultimately have 1: "\<exists>fa fb. fa \<in> set funnels \<and> fb \<in> set funnels \<and> funnel_id fa = ka
            \<and> funnel_id fb = kb \<and> fa \<noteq> fb \<and> funnel_key fa \<noteq> funnel_key fb"
    using accumulated_id by blast
  have "map (\<lambda>k. snd (snd k)) (map funnel_key funnels) = map funnel_id funnels"
    by (simp add: funnel_key_def)
  then have "distinct (map (\<lambda>k. snd (snd k)) (map funnel_key funnels))"
    using fetch_body_funnels(3) [OF assms(1)] by (simp only:)
  then have 2: "distinct (map funnel_key funnels)"
    using distinct_map [of "\<lambda>k. snd (snd k)" "map funnel_key funnels"] by blast
  have 3: "classify (js ''Funnel 007'') = js ''007''" "classify (js ''Funnel 7'') = js ''7''"
    by code_simp+
  show ?thesis
    using 1 2 3 classify_verbatim by blast
qed

theorem distinct_ids_distinct_funnels_witness:
  "fetchFacebookAdData_body example_window (Data [])
     (Data [example_insight ''Funnel 007'' ''1'' ''2'' ''3'' ''4'',
            example_insight ''Funnel 7'' ''5'' ''6'' ''7'' ''8''])
   = Inr [(example_funnel ''7'' 5 6 7 8)
            \<lparr>frequency := Fin (7720456504063707 / 9007199254740992), campaigns := None,
             link_ctr := Some (Fin (2345624805922133 / 17592186044416))\<rparr>,
          (example_funnel ''007'' 1 2 3 4)
            \<lparr>frequency := Fin (6004799503160661 / 9007199254740992), campaigns := None,
             link_ctr := Some (Fin 200)\<rparr>]
   \<and> funnel_of (build_campaign_map []) (example_insight ''Funnel 007'' ''1'' ''2'' ''3'' ''4'')
       = Some (js ''007'')
   \<and> funnel_of (build_campaign_map []) (example_insight ''Funnel 7'' ''5'' ''6'' ''7'' ''8'')
       = Some (js ''7'')
   \<and> js ''007'' \<noteq> js ''7''
   \<and> distinct (map funnel_key
        [(example_funnel ''7'' 5 6 7 8)
            \<lparr>frequency := Fin (7720456504063707 / 9007199254740992), campaigns := None,
             link_ctr := Some (Fin (2345624805922133 / 17592186044416))\<rparr>,
          (example_funnel ''007'' 1 2 3 4)
            \<lparr>frequency := Fin (6004799503160661 / 9007199254740992), campaigns := None,
             link_ctr := Some (Fin 200)\<rparr>])"
proof -
  let ?a = "example_insight ''Funnel 007'' ''1'' ''2'' ''3'' ''4''"
  let ?b = "example_insight ''Funnel 7'' ''5'' ''6'' ''7'' ''8''"
  let ?fs = "[(example_funnel ''7'' 5 6 7 8)
            \<lparr>frequency := Fin (7720456504063707 / 9007199254740992), campaigns := None,
             link_ctr := Some (Fin (2345624805922133 / 17592186044416))\<rparr>,
          (example_funnel ''007'' 1 2 3 4)
            \<lparr>frequency := Fin (6004799503160661 / 9007199254740992), campaigns := None,
             link_ctr := Some (Fin 200)\<rparr>]"
  have b: "fetchFacebookAdData_body example_window (Data []) (Data [?a, ?b]) = Inr ?fs"
    by code_simp
  have ka: "funnel_of (build_campaign_map []) ?a = Some (js ''007'')"
    and kb: "funnel_of (build_campaign_map []) ?b = Some (js ''7'')"
    by code_simp+
  have ne: "js ''007'' \<noteq> js ''7''" by (simp add: js_def)
  have "?a \<in> set [?a, ?b]" "?b \<in> set [?a, ?b]" by simp_all
  from distinct_ids_distinct_funnels [OF b this ka kb ne]
  have "distinct (map funnel_key ?fs)" by blast
  then show ?thesis
    using b ka kb ne by blast
qed

lemma accumulated_totals:
  "amount_spent (accumulated w m k ins)
     = foldl js_add (Fin 0) (map (\<lambda>i. parseFloat (or_zero (i_spend i))) (records_of m k ins))"
  "impressions (accumulated w m k ins)
     = foldl js_add (Fin 0) (map (\<lambda>i. parseInt (or_zero (i_impressions i))) (records_of m k ins))"
  "reach (accumulated w m k ins)
     = foldl js_add (Fin 0) (map (\<lambda>i. parseInt (or_zero (i_reach i))) (records_of m k ins))"
  "ads_link_clicks (accumulated w m k ins)
     = foldl js_add (Fin 0) (map (\<lambda>i. parseInt (or_zero (i_clicks i))) (records_of m k ins))"
  by (simp_all add: accumulated_def finalize_keeps foldl_fold_record_totals new_funnel_def)

lemma accumulated_exact:
  "exact_records i_spend (records_of m k ins) \<Longrightarrow>
     amount_spent (accumulated w m k ins) = Fin (of_int (field_total i_spend (records_of m k ins)))"
  "exact_records i_impressions (records_of m k ins) \<Longrightarrow>
     impressions (accumulated w m k ins)
       = Fin (of_int (field_total i_impressions (records_of m k ins)))"
  "exact_records i_reach (records_of m k ins) \<Longrightarrow>
     reach (accumulated w m k ins) = Fin (of_int (field_total i_reach (records_of m k ins)))"
  "exact_records i_clicks (records_of m k ins) \<Longrightarrow>
     ads_link_clicks (accumulated w m k ins)
       = Fin (of_int (field_total i_clicks (records_of m k ins)))"
  by (simp_all add: accumulated_totals exact_total)

lemma accumulated_permuted:
  assumes "mset (records_of m k ins') = mset (records_of m k ins)"
  shows "exact_records i_spend (records_of m k ins) \<longrightarrow>
           amount_spent (accumulated w m k ins') = amount_spent (accumulated w m k ins)"
    and "exact_records i_impressions (records_of m k ins) \<longrightarrow>
           impressions (accumulated w m k ins') = impressions (accumulated w m k ins)"
    and "exact_records i_reach (records_of m k ins) \<longrightarrow>
           reach (accumulated w m k ins') = reach (accumulated w m k ins)"
    and "exact_records i_clicks (records_of m k ins) \<longrightarrow>
           ads_link_clicks (accumulated w m k ins') = ads_link_clicks (accumulated w m k ins)"
  using exact_records_mset [OF assms] by (simp_all add: accumulated_exact)

lemma funnel_totals_of:
  assumes "fetchFacebookAdData_body w (Data cs) (Data ins) = Inr funnels"
    and "f \<in> set funnels"
    and "grp = records_of (build_campaign_map cs) (funnel_id f) ins"
  shows "grp \<noteq> []
    \<and> amount_spent f = foldl js_add (Fin 0) (map (\<lambda>i. parseFloat (or_zero (i_spend i))) grp)
    \<and> impressions f = foldl js_add (Fin 0) (map (\<lambda>i. parseInt (or_zero (i_impressions i))) grp)
    \<and> reach f = foldl js_add (Fin 0) (map (\<lambda>i. parseInt (or_zero (i_reach i))) grp)
    \<and> ads_link_clicks f = foldl js_add (Fin 0) (map (\<lambda>i. parseInt (or_zero (i_clicks i))) grp)
    \<and> (exact_records i_spend grp \<longrightarrow> amount_spent f = Fin (of_int (field_total i_spend grp)))
    \<and> (exact_records i_impressions grp \<longrightarrow>
          impressions f = Fin (of_int (field_total i_impressions grp)))
    \<and> (exact_records i_reach grp \<longrightarrow> reach f = Fin (of_int (field_total i_reach grp)))
    \<and> (exact_records i_clicks grp \<longrightarrow>
          ads_link_clicks f = Fin (of_int (field_total i_clicks grp)))
    \<and> (\<forall>ins'. mset ins' = mset ins \<longrightarrow>
          (\<exists>funnels' f'.
             fetchFacebookAdData_body w (Data cs) (Data ins') = Inr funnels'
             \<and> f' \<in> set funnels' \<and> funnel_id f' = funnel_id f
             \<and> mset (records_of (build_campaign_map cs) (funnel_id f) ins') = mset grp
             \<and> (exact_records i_spend grp \<longrightarrow> amount_spent f' = amount_spent f)
             \<and> (exact_records i_impressions grp \<longrightarrow> impressions f' = impressions f)
             \<and> (exact_records i_reach grp \<longrightarrow> reach f' = reach f)
             \<and> (exact_records i_clicks grp \<longrightarrow> ads_link_clicks f' = ads_link_clicks f)))
    \<and> (\<forall>fld. truthy fld = None \<longrightarrow>
          parseInt (or_zero fld) = Fin 0 \<and> parseFloat (or_zero fld) = Fin 0)"
proof -
  let ?m = "build_campaign_map cs"
  obtain k where k: "records_of ?m k ins \<noteq> []" and f: "f = accumulated w ?m k ins"
    using fetch_body_funnels(2) [OF assms(1)] assms(2) by blast
  have id: "funnel_id f = k" unfolding f by (rule accumulated_id)
  have grp: "grp = records_of ?m k ins" using assms(3) id by simp
  have ok: "\<forall>i\<in>set ins. funnel_of ?m i \<noteq> None"
    by (rule fetch_body_funnels(1) [OF assms(1)])
  have perm: "\<exists>funnels' f'.
             fetchFacebookAdData_body w (Data cs) (Data ins') = Inr funnels'
             \<and> f' \<in> set funnels' \<and> funnel_id f' = k
             \<and> mset (records_of ?m k ins') = mset (records_of ?m k ins)
             \<and> (exact_records i_spend (records_of ?m k ins) \<longrightarrow>
                  amount_spent f' = amount_spent (accumulated w ?m k ins))
             \<and> (exact_records i_impressions (records_of ?m k ins) \<longrightarrow>
                  impressions f' = impressions (accumulated w ?m k ins))
             \<and> (exact_records i_reach (records_of ?m k ins) \<longrightarrow>
                  reach f' = reach (accumulated w ?m k ins))
             \<and> (exact_records i_clicks (records_of ?m k ins) \<longrightarrow>
                  ads_link_clicks f' = ads_link_clicks (accumulated w ?m k ins))"
    if p: "mset ins' = mset ins" for ins'
  proof -
    have "set ins' = set ins" using p by (rule mset_eq_setD)
    with ok have "\<forall>i\<in>set ins'. funnel_of ?m i \<noteq> None" by simp
    then obtain funnels' where b: "fetchFacebookAdData_body w (Data cs) (Data ins') = Inr funnels'"
      using fetch_body_succeeds by blast
    have g: "mset (records_of ?m k ins') = mset (records_of ?m k ins)"
      using p by (simp add: records_of_def)
    with k have "records_of ?m k ins' \<noteq> []" by (metis mset_zero_iff)
    then have "accumulated w ?m k ins' \<in> set funnels'"
      using fetch_body_funnels(2) [OF b] by blast
    moreover have "funnel_id (accumulated w ?m k ins') = k"
      by (rule accumulated_id)
    ultimately show ?thesis
      using b g accumulated_permuted [OF g, of w] by blast
  qed
  have zero: "\<forall>fld. truthy fld = None \<longrightarrow>
          parseInt (or_zero fld) = Fin 0 \<and> parseFloat (or_zero fld) = Fin 0"
    using absent_is_zero by blast
  note t = accumulated_totals [of w ?m k ins]
  have e: "exact_records i_spend (records_of ?m k ins) \<longrightarrow>
       amount_spent (accumulated w ?m k ins)
         = Fin (of_int (field_total i_spend (records_of ?m k ins)))"
    "exact_records i_impressions (records_of ?m k ins) \<longrightarrow>
       impressions (accumulated w ?m k ins)
         = Fin (of_int (field_total i_impressions (records_of ?m k ins)))"
    "exact_records i_reach (records_of ?m k ins) \<longrightarrow>
       reach (accumulated w ?m k ins)
         = Fin (of_int (field_total i_reach (records_of ?m k ins)))"
    "exact_records i_clicks (records_of ?m k ins) \<longrightarrow>
       ads_link_clicks (accumulated w ?m k ins)
         = Fin (of_int (field_total i_clicks (records_of ?m k ins)))"
    using accumulated_exact [of m k ins w] by (simp_all add: accumulated_exact)
  show ?thesis
    unfolding id unfolding grp f
    using k t e perm zero by blast
qed

text \<open>
  Claim C1, as amended. The fetch returns whenever the funnel of every insight record
  is determined, and a fetch that returns has folded every insight record: each
  record lies in the group of a returned accumulator, every funnel id with a record has
  its accumulator, and no two accumulators share a funnel id. For the records that share
  a funnel id, the accumulator of that funnel holds, in each of the four totals, the sum
  in the arithmetic of Numbers, taken in input order from \<open>0\<close>, of what \<^verbatim>\<open>parseFloat\<close>
  (for the spend) or \<^verbatim>\<open>parseInt\<close> (for the counts) reads in the field, where an absent,
  \<^verbatim>\<open>null\<close> or empty field reads as \<open>0\<close>. Where every record has an absent value or a
  string of decimal digits in a field and the exact total is at most \<open>2 ^ 53\<close>, the
  accumulated value is the exact total, and it is the same for every order of the input.
\<close>

theorem funnel_totals:
  "((\<forall>i\<in>set ins. funnel_of (build_campaign_map cs) i \<noteq> None) \<longrightarrow>
      (\<exists>funnels. fetchFacebookAdData_body w (Data cs) (Data ins) = Inr funnels))
   \<and> (fetchFacebookAdData_body w (Data cs) (Data ins) = Inr funnels \<longrightarrow>
       (\<forall>i\<in>set ins. \<exists>f\<in>set funnels.
                funnel_of (build_campaign_map cs) i = Some (funnel_id f)
                \<and> i \<in> set (records_of (build_campaign_map cs) (funnel_id f) ins))
        \<and> (\<forall>k. records_of (build_campaign_map cs) k ins \<noteq> [] \<longrightarrow>
               (\<exists>f\<in>set funnels. funnel_id f = k))
        \<and> distinct (map funnel_id funnels)
        \<and> (f \<in> set funnels \<and> grp = records_of (build_campaign_map cs) (funnel_id f) ins \<longrightarrow>
            grp \<noteq> []
            \<and> amount_spent f = foldl js_add (Fin 0) (map (\<lambda>i. parseFloat (or_zero (i_spend i))) grp)
            \<and> impressions f = foldl js_add (Fin 0) (map (\<lambda>i. parseInt (or_zero (i_impressions i))) grp)
            \<and> reach f = foldl js_add (Fin 0) (map (\<lambda>i. parseInt (or_zero (i_reach i))) grp)
            \<and> ads_link_clicks f = foldl js_add (Fin 0) (map (\<lambda>i. parseInt (or_zero (i_clicks i))) grp)
            \<and> (exact_records i_spend grp \<longrightarrow> amount_spent f = Fin (of_int (field_total i_spend grp)))
            \<and> (exact_records i_impressions grp \<longrightarrow>
                  impressions f = Fin (of_int (field_total i_impressions grp)))
            \<and> (exact_records i_reach grp \<longrightarrow> reach f = Fin (of_int (field_total i_reach grp)))
            \<and> (exact_records i_clicks grp \<longrightarrow>
                  ads_link_clicks f = Fin (of_int (field_total i_clicks grp)))
            \<and> (\<forall>ins'. mset ins' = mset ins \<longrightarrow>
                  (\<exists>funnels' f'.
                     fetchFacebookAdData_body w (Data cs) (Data ins') = Inr funnels'
                     \<and> f' \<in> set funnels' \<and> funnel_id f' = funnel_id f
                     \<and> mset (records_of (build_campaign_map cs) (funnel_id f) ins') = mset grp
                     \<and> (exact_records i_spend grp \<longrightarrow> amount_spent f' = amount_spent f)
                     \<and> (exact_records i_impressions grp \<longrightarrow> impressions f' = impressions f)
                     \<and> (exact_records i_reach grp \<longrightarrow> reach f' = reach f)
                     \<and> (exact_records i_clicks grp \<longrightarrow> ads_link_clicks f' = ads_link_clicks f)))
            \<and> (\<forall>fld. truthy fld = None \<longrightarrow>
                  parseInt (or_zero fld) = Fin 0 \<and> parseFloat (or_zero fld) = Fin 0)))"
proof (rule conjI; rule impI)
  assume "\<forall>i\<in>set ins. funnel_of (build_campaign_map cs) i \<noteq> None"
  then show "\<exists>funnels. fetchFacebookAdData_body w (Data cs) (Data ins) = Inr funnels"
    by (rule fetch_body_succeeds)
next
  let ?m = "build_campaign_map cs"
  assume b: "fetchFacebookAdData_body w (Data cs) (Data ins) = Inr funnels"
  have ok: "\<forall>i\<in>set ins. funnel_of ?m i \<noteq> None"
    by (rule fetch_body_funnels(1) [OF b])
  have has: "\<exists>f\<in>set funnels. funnel_id f = k" if "records_of ?m k ins \<noteq> []" for k
  proof -
    have "accumulated w ?m k ins \<in> set funnels"
      using fetch_body_funnels(2) [OF b] that by blast
    then show ?thesis using accumulated_id by blast
  qed
  have cover: "\<exists>f\<in>set funnels. funnel_of ?m i = Some (funnel_id f)
            \<and> i \<in> set (records_of ?m (funnel_id f) ins)" if i: "i \<in> set ins" for i
  proof -
    obtain k where k: "funnel_of ?m i = Some k" using ok i by auto
    with i have m: "i \<in> set (records_of ?m k ins)" by (simp add: records_of_def)
    then have "records_of ?m k ins \<noteq> []" by auto
    then obtain f where "f \<in> set funnels" "funnel_id f = k" using has by blast
    with k m show ?thesis by blast
  qed
  have d: "distinct (map funnel_id funnels)"
    by (rule fetch_body_funnels(3) [OF b])
  show "(\<forall>i\<in>set ins. \<exists>f\<in>set funnels.
            funnel_of (build_campaign_map cs) i = Some (funnel_id f)
            \<and> i \<in> set (records_of (build_campaign_map cs) (funnel_id f) ins))
    \<and> (\<forall>k. records_of (build_campaign_map cs) k ins \<noteq> [] \<longrightarrow>
           (\<exists>f\<in>set funnels. funnel_id f = k))
    \<and> distinct (map funnel_id funnels)
    \<and> (f \<in> set funnels \<and> grp = records_of (build_campaign_map cs) (funnel_id f) ins \<longrightarrow>
        grp \<noteq> []
        \<and> amount_spent f = foldl js_add (Fin 0) (map (\<lambda>i. parseFloat (or_zero (i_spend i))) grp)
        \<and> impressions f = foldl js_add (Fin 0) (map (\<lambda>i. parseInt (or_zero (i_impressions i))) grp)
        \<and> reach f = foldl js_add (Fin 0) (map (\<lambda>i. parseInt (or_zero (i_reach i))) grp)
        \<and> ads_link_clicks f = foldl js_add (Fin 0) (map (\<lambda>i. parseInt (or_zero (i_clicks i))) grp)
        \<and> (exact_records i_spend grp \<longrightarrow> amount_spent f = Fin (of_int (field_total i_spend grp)))
        \<and> (exact_records i_impressions grp \<longrightarrow>
              impressions f = Fin (of_int (field_total i_impressions grp)))
        \<and> (exact_records i_reach grp \<longrightarrow> reach f = Fin (of_int (field_total i_reach grp)))
        \<and> (exact_records i_clicks grp \<longrightarrow>
              ads_link_clicks f = Fin (of_int (field_total i_clicks grp)))
        \<and> (\<forall>ins'. mset ins' = mset ins \<longrightarrow>
              (\<exists>funnels' f'.
                 fetchFacebookAdData_body w (Data cs) (Data ins') = Inr funnels'
                 \<and> f' \<in> set funnels' \<and> funnel_id f' = funnel_id f
                 \<and> mset (records_of (build_campaign_map cs) (funnel_id f) ins') = mset grp
                 \<and> (exact_records i_spend grp \<longrightarrow> amount_spent f' = amount_spent f)
                 \<and> (exact_records i_impressions grp \<longrightarrow> impressions f' = impressions f)
                 \<and> (exact_records i_reach grp \<longrightarrow> reach f' = reach f)
                 \<and> (exact_records i_clicks grp \<longrightarrow> ads_link_clicks f' = ads_link_clicks f)))
        \<and> (\<forall>fld. truthy fld = None \<longrightarrow>
              parseInt (or_zero fld) = Fin 0 \<and> parseFloat (or_zero fld) = Fin 0))"
    using cover has d funnel_totals_of [OF b, of f grp] by blast
qed

theorem funnel_totals_witness:
  "fetchFacebookAdData_body example_window (Data [])
     (Data [example_insight ''Funnel 1 - Top'' ''100'' ''1000'' ''500'' ''20'',
            example_insight ''Funnel 1 - Mid'' ''50'' ''500'' ''250'' ''10''])
   = Inr [(example_funnel ''1'' 150 1500 750 30)
            \<lparr>frequency := Fin 2, campaigns := None, link_ctr := Some (Fin 2)\<rparr>]
   \<and> exact_records i_impressions
        [example_insight ''Funnel 1 - Top'' ''100'' ''1000'' ''500'' ''20'',
         example_insight ''Funnel 1 - Mid'' ''50'' ''500'' ''250'' ''10'']
   \<and> impressions ((example_funnel ''1'' 150 1500 750 30)
            \<lparr>frequency := Fin 2, campaigns := None, link_ctr := Some (Fin 2)\<rparr>)
      = Fin (of_int (field_total i_impressions
          [example_insight ''Funnel 1 - Top'' ''100'' ''1000'' ''500'' ''20'',
           example_insight ''Funnel 1 - Mid'' ''50'' ''500'' ''250'' ''10'']))
   \<and> records_of (build_campaign_map []) (js ''1'')
        [example_insight ''Funnel 1 - Top'' ''100'' ''1000'' ''500'' ''20'',
         example_insight ''Funnel 1 - Mid'' ''50'' ''500'' ''250'' ''10''] \<noteq> []
   \<and> (\<exists>f\<in>set [(example_funnel ''1'' 150 1500 750 30)
            \<lparr>frequency := Fin 2, campaigns := None, link_ctr := Some (Fin 2)\<rparr>].
         funnel_id f = js ''1'')
   \<and> list_all (\<lambda>i. funnel_of (build_campaign_map []) i \<noteq> None)
        [example_insight ''Funnel 1 - Top'' ''100'' ''1000'' ''500'' ''20'',
         example_insight ''Funnel 1 - Mid'' ''50'' ''500'' ''250'' ''10'']"
proof -
  let ?ins = "[example_insight ''Funnel 1 - Top'' ''100'' ''1000'' ''500'' ''20'',
               example_insight ''Funnel 1 - Mid'' ''50'' ''500'' ''250'' ''10'']"
  let ?f = "(example_funnel ''1'' 150 1500 750 30)
            \<lparr>frequency := Fin 2, campaigns := None, link_ctr := Some (Fin 2)\<rparr>"
  have g: "?ins = records_of (build_campaign_map []) (funnel_id ?f) ?ins"
    by code_simp
  have n: "records_of (build_campaign_map []) (js ''1'') ?ins \<noteq> []"
    by code_simp
  have e: "exact_records i_impressions ?ins"
    by code_simp
  have m: "?f \<in> set [?f]" by simp
  have h: "list_all (\<lambda>i. funnel_of (build_campaign_map []) i \<noteq> None) ?ins"
    by code_simp
  note t = funnel_totals [where cs = "[]" and ins = ?ins and w = example_window
                            and funnels = "[?f]" and f = ?f and grp = ?ins]
  from t scenario_body m g e
  have 1: "impressions ?f = Fin (of_int (field_total i_impressions ?ins))" by blast
  from t scenario_body n have 2: "\<exists>f\<in>set [?f]. funnel_id f = js ''1''" by blast
  show ?thesis
    using scenario_body e 1 n 2 h by blast
qed

text \<open>
  The claim as stated fails: a value that is not numeric makes the total \<^verbatim>\<open>NaN\<close>, and
  the spends \<^verbatim>\<open>0.1\<close>, \<^verbatim>\<open>0.2\<close>, \<^verbatim>\<open>0.3\<close> add up to two different Numbers in two orders.
\<close>

theorem totals_counterexample:
  "fetchFacebookAdData_body example_window (Data [])
     (Data [example_insight ''Funnel 1'' ''10'' ''abc'' ''7'' ''1''])
   = Inr [(example_funnel ''1'' 10 0 7 1)
            \<lparr>impressions := NaN, frequency := NaN, campaigns := None\<rparr>]
   \<and> fetchFacebookAdData_body example_window (Data [])
     (Data [example_insight ''Funnel 1'' ''0.1'' ''1'' ''1'' ''1'',
            example_insight ''Funnel 1'' ''0.2'' ''1'' ''1'' ''1'',
            example_insight ''Funnel 1'' ''0.3'' ''1'' ''1'' ''1''])
   = Inr [(example_funnel ''1'' (1351079888211149 / 2251799813685248) 3 3 3)
            \<lparr>frequency := Fin 1, campaigns := None, link_ctr := Some (Fin 100)\<rparr>]
   \<and> fetchFacebookAdData_body example_window (Data [])
     (Data [example_insight ''Funnel 1'' ''0.3'' ''1'' ''1'' ''1'',
            example_insight ''Funnel 1'' ''0.2'' ''1'' ''1'' ''1'',
            example_insight ''Funnel 1'' ''0.1'' ''1'' ''1'' ''1''])
   = Inr [(example_funnel ''1'' (5404319552844595 / 9007199254740992) 3 3 3)
            \<lparr>frequency := Fin 1, campaigns := None, link_ctr := Some (Fin 100)\<rparr>]"
  by code_simp

end
